theory Spec2Isabelle
  imports Complex_Main "HOL-Library.Sublist"
begin

section \<open>Data model (src/core/types.ts and the fields the adapters read)\<close>

text \<open>
  JavaScript numbers are modelled as exact reals (\<open>NaN\<close> and the infinities are outside
  the model). A value that may be \<open>null\<close> or \<open>undefined\<close> is an \<open>option\<close>; the
  source only ever tests such values with \<open>??\<close>, \<open>== null\<close> or truthiness, which
  treat \<open>null\<close> and \<open>undefined\<close> alike.
\<close>

type_synonym number = real

datatype SileoState = Success | Loading | Error | Warning | Info | Action

datatype SileoPosition =
  TopLeft | TopCenter | TopRight | BottomLeft | BottomCenter | BottomRight

fun position_name :: "SileoPosition \<Rightarrow> string" where
  "position_name TopLeft = ''top-left''"
| "position_name TopCenter = ''top-center''"
| "position_name TopRight = ''top-right''"
| "position_name BottomLeft = ''bottom-left''"
| "position_name BottomCenter = ''bottom-center''"
| "position_name BottomRight = ''bottom-right''"

text \<open>
  A renderable (\<open>Renderable | string\<close>): either a string or an opaque framework node.
  \<open>truthy\<close> is JavaScript's \<open>Boolean(v)\<close> on such a value: only the empty string is
  falsy, every object is truthy.
\<close>

datatype renderable = Text string | Node nat

fun truthy :: "renderable \<Rightarrow> bool" where
  "truthy (Text s) = (s \<noteq> [])"
| "truthy (Node n) = True"

record SileoStyles =
  styles_title :: "string option"
  styles_description :: "string option"
  styles_badge :: "string option"
  styles_button :: "string option"

record SileoButton =
  button_title :: string
  button_onClick :: nat

text \<open>
  \<open>SileoItem\<close> is declared in \<open>core/store\<close>; its fields are the ones the adapters
  read (\<open>toaster.tsx\<close> lines 230-254, \<open>toaster.ts\<close> lines 240-264, and \<open>schedule\<close>).
\<close>

record SileoItem =
  item_id :: string
  item_instanceId :: string
  item_state :: SileoState
  item_title :: "string option"
  item_description :: "renderable option"
  item_position :: "SileoPosition option"
  item_duration :: "number option"
  item_icon :: "renderable option"
  item_fill :: "string option"
  item_styles :: "SileoStyles option"
  item_button :: "SileoButton option"
  item_roundness :: "number option"
  item_exiting :: bool
  item_autoExpandDelayMs :: "number option"
  item_autoCollapseDelayMs :: "number option"

section \<open>View adapter (src/react/toaster.tsx, src/vue/toaster.ts)\<close>

text \<open>
  Modelled from the spec: \<open>timeoutKey\<close> of \<open>core/store\<close>, which is not among the
  sources. The spec calls it "a composite key of id + instanceId"; the model keeps the
  two components as a pair.
\<close>

type_synonym timer_key = "string \<times> string"

definition timeoutKey :: "SileoItem \<Rightarrow> timer_key" where
  "timeoutKey t = (item_id t, item_instanceId t)"

text \<open>
  The window's timer table, as far as the adapter uses it: \<open>window.setTimeout(cb, dur)\<close>
  returns a fresh handle and records the delay and the callback; the only callback the
  adapter ever registers is \<open>() => dismissToast(item.id)\<close>, recorded by the id.
  \<open>clearTimeout\<close> removes a handle and ignores one that is not pending.
\<close>

type_synonym handle = nat

record dismiss_timer =
  timer_handle :: handle
  timer_delay :: number
  timer_target :: string

definition clearTimeout :: "handle \<Rightarrow> dismiss_timer list \<Rightarrow> dismiss_timer list" where
  "clearTimeout h p = filter (\<lambda>e. timer_handle e \<noteq> h) p"

text \<open>
  The adapter's local state. \<open>timers\<close> is the \<open>Map\<close> from timeout key to handle (an
  association list in insertion order), \<open>toasts\<close> the mirrored list (\<open>listRef.current\<close> in
  React, \<open>toasts.value\<close> in Vue), \<open>isHovering\<close> is \<open>hoverRef.current\<close>, \<open>latestId\<close> is
  \<open>latestRef.current\<close>. \<open>listening\<close> says whether the adapter's listener is a member of
  \<open>store.listeners\<close>. \<open>pending\<close> and \<open>nextHandle\<close> are the window's timer table;
  \<open>dismissRequests\<close> logs the calls of \<open>dismissToast\<close> made by timer callbacks.
\<close>

record toaster =
  toasts :: "SileoItem list"
  activeId :: "string option"
  isHovering :: bool
  timers :: "(timer_key \<times> handle) list"
  latestId :: "string option"
  listening :: bool
  pending :: "dismiss_timer list"
  nextHandle :: handle
  dismissRequests :: "string list"

definition toaster_init :: toaster where
  "toaster_init = \<lparr> toasts = [], activeId = None, isHovering = False, timers = [],
     latestId = None, listening = False, pending = [], nextHandle = 0,
     dismissRequests = [] \<rparr>"

definition clearAllTimers :: "toaster \<Rightarrow> toaster" where
  "clearAllTimers s =
     s\<lparr> pending := fold clearTimeout (map snd (timers s)) (pending s), timers := [] \<rparr>"

text \<open>
  \<open>schedule\<close>. The parameter \<open>dd\<close> is \<open>DEFAULT_DURATION\<close>, a constant of \<open>core/store\<close>
  that is not among the sources; \<open>dur = item.duration ?? DEFAULT_DURATION\<close>.
\<close>

definition nullish_coalesce :: "'a option \<Rightarrow> 'a option \<Rightarrow> 'a option" where
  "nullish_coalesce a b = (case a of Some v \<Rightarrow> Some v | None \<Rightarrow> b)"

fun schedule_loop :: "number option \<Rightarrow> SileoItem list \<Rightarrow> toaster \<Rightarrow> toaster" where
  "schedule_loop dd [] s = s"
| "schedule_loop dd (item # items) s =
     (if item_exiting item then schedule_loop dd items s
      else if timeoutKey item \<in> fst ` set (timers s) then schedule_loop dd items s
      else (case nullish_coalesce (item_duration item) dd of
              None \<Rightarrow> schedule_loop dd items s
            | Some dur \<Rightarrow>
                if dur \<le> 0 then schedule_loop dd items s
                else schedule_loop dd items
                  (s\<lparr> timers := timers s @ [(timeoutKey item, nextHandle s)],
                      pending := pending s @
                        [\<lparr> timer_handle = nextHandle s, timer_delay = dur,
                           timer_target = item_id item \<rparr>],
                      nextHandle := Suc (nextHandle s) \<rparr>)))"

definition schedule :: "number option \<Rightarrow> SileoItem list \<Rightarrow> toaster \<Rightarrow> toaster" where
  "schedule dd items s = (if isHovering s then s else schedule_loop dd items s)"

text \<open>
  \<open>latest\<close>: the id of the last toast of the list that is not exiting (the loop runs
  from the end of the list to its start).
\<close>

fun latest_from_end :: "SileoItem list \<Rightarrow> string option" where
  "latest_from_end [] = None"
| "latest_from_end (t # ts) = (if \<not> item_exiting t then Some (item_id t) else latest_from_end ts)"

definition latest :: "SileoItem list \<Rightarrow> string option" where
  "latest ts = latest_from_end (rev ts)"

text \<open>
  The two effects that run when the mirrored list changes: the timer management
  (\<open>useEffect(..., [toasts, schedule])\<close>, \<open>watch(toasts, ...)\<close>) and the active tracking
  (\<open>useEffect(..., [latest])\<close>, \<open>watch(latest, ...)\<close>), which runs only when the value of
  \<open>latest\<close> has changed.
\<close>

definition manage_timers :: "number option \<Rightarrow> SileoItem list \<Rightarrow> toaster \<Rightarrow> toaster" where
  "manage_timers dd items s =
     (let toastKeys = map timeoutKey items;
          stale = filter (\<lambda>kh. fst kh \<notin> set toastKeys) (timers s)
      in schedule dd items
           (s\<lparr> toasts := items,
               pending := fold clearTimeout (map snd stale) (pending s),
               timers := filter (\<lambda>kh. fst kh \<in> set toastKeys) (timers s) \<rparr>))"

definition track_latest :: "toaster \<Rightarrow> toaster" where
  "track_latest s =
     (if latest (toasts s) = latestId s then s
      else s\<lparr> latestId := latest (toasts s), activeId := latest (toasts s) \<rparr>)"

definition set_toasts :: "number option \<Rightarrow> SileoItem list \<Rightarrow> toaster \<Rightarrow> toaster" where
  "set_toasts dd items s = track_latest (manage_timers dd items s)"

text \<open>The hover handlers (\<open>getHandlers\<close>), mount and unmount, and a timer firing.\<close>

definition enter :: "string \<Rightarrow> toaster \<Rightarrow> toaster" where
  "enter toastId s =
     (let s1 = s\<lparr> activeId := Some toastId \<rparr>
      in if isHovering s1 then s1 else clearAllTimers (s1\<lparr> isHovering := True \<rparr>))"

definition leave :: "number option \<Rightarrow> toaster \<Rightarrow> toaster" where
  "leave dd s =
     (let s1 = s\<lparr> activeId := latestId s \<rparr>
      in if isHovering s1 then schedule dd (toasts s1) (s1\<lparr> isHovering := False \<rparr>) else s1)"

definition onMounted :: "number option \<Rightarrow> SileoItem list \<Rightarrow> toaster \<Rightarrow> toaster" where
  "onMounted dd storeToasts s = set_toasts dd storeToasts (s\<lparr> listening := True \<rparr>)"

definition onUnmounted :: "toaster \<Rightarrow> toaster" where
  "onUnmounted s = clearAllTimers (s\<lparr> listening := False \<rparr>)"

definition timer_fires :: "handle \<Rightarrow> toaster \<Rightarrow> toaster" where
  "timer_fires h s =
     (case find (\<lambda>e. timer_handle e = h) (pending s) of
        None \<Rightarrow> s
      | Some e \<Rightarrow> s\<lparr> pending := clearTimeout h (pending s),
                     dismissRequests := dismissRequests s @ [timer_target e] \<rparr>)"

datatype toaster_event =
  Mounted "SileoItem list"
| Notify "SileoItem list"
| MouseEnter string
| MouseLeave string
| TimerFires handle
| Unmounted

fun toaster_step :: "number option \<Rightarrow> toaster_event \<Rightarrow> toaster \<Rightarrow> toaster" where
  "toaster_step dd (Mounted ts) s = onMounted dd ts s"
| "toaster_step dd (Notify ts) s = (if listening s then set_toasts dd ts s else s)"
| "toaster_step dd (MouseEnter i) s = enter i s"
| "toaster_step dd (MouseLeave i) s = leave dd s"
| "toaster_step dd (TimerFires h) s = timer_fires h s"
| "toaster_step dd Unmounted s = onUnmounted s"

definition toaster_run :: "number option \<Rightarrow> toaster_event list \<Rightarrow> toaster \<Rightarrow> toaster" where
  "toaster_run dd es s = fold (toaster_step dd) es s"

text \<open>
  \<open>getViewportStyle\<close>. A \<open>SileoOffsetValue\<close> is a number or a string; the \<open>offset\<close> prop is
  absent, one such value, or a \<open>SileoOffsetConfig\<close> with an optional value per edge.
  \<open>offset_truthy\<close> is JavaScript's truthiness of a value (\<open>o.top && ...\<close>): the number 0
  and the empty string are falsy. \<open>numstr\<close> stands for JavaScript's conversion of a number
  to a string inside the template literal \<open>`${v}px`\<close>, which is not modelled further.
\<close>

datatype SileoOffsetValue = Num number | Str string

record SileoOffsetConfig =
  offset_top :: "SileoOffsetValue option"
  offset_right :: "SileoOffsetValue option"
  offset_bottom :: "SileoOffsetValue option"
  offset_left :: "SileoOffsetValue option"

datatype offset_prop = OffsetValue SileoOffsetValue | OffsetObject SileoOffsetConfig

record CSSProperties =
  css_top :: "string option"
  css_bottom :: "string option"
  css_left :: "string option"
  css_right :: "string option"

fun offset_truthy :: "SileoOffsetValue option \<Rightarrow> bool" where
  "offset_truthy None = False"
| "offset_truthy (Some (Num n)) = (n \<noteq> 0)"
| "offset_truthy (Some (Str s)) = (s \<noteq> [])"

fun px :: "(number \<Rightarrow> string) \<Rightarrow> SileoOffsetValue \<Rightarrow> string" where
  "px numstr (Num n) = numstr n @ ''px''"
| "px numstr (Str s) = s"

definition startsWith :: "string \<Rightarrow> string \<Rightarrow> bool" where
  "startsWith str p = prefix p str"

definition endsWith :: "string \<Rightarrow> string \<Rightarrow> bool" where
  "endsWith str p = suffix p str"

definition getViewportStyle ::
  "(number \<Rightarrow> string) \<Rightarrow> offset_prop option \<Rightarrow> SileoPosition \<Rightarrow> CSSProperties option" where
  "getViewportStyle numstr offset pos =
     (case offset of
        None \<Rightarrow> None
      | Some off \<Rightarrow>
          let ob = (case off of
                     OffsetObject c \<Rightarrow> c
                   | OffsetValue v \<Rightarrow>
                       \<lparr> offset_top = Some v, offset_right = Some v,
                         offset_bottom = Some v, offset_left = Some v \<rparr>);
              s0 = \<lparr> css_top = None, css_bottom = None, css_left = None, css_right = None \<rparr>;
              s1 = (if startsWith (position_name pos) ''top'' \<and> offset_truthy (offset_top ob)
                    then s0\<lparr> css_top := Some (px numstr (the (offset_top ob))) \<rparr> else s0);
              s2 = (if startsWith (position_name pos) ''bottom'' \<and> offset_truthy (offset_bottom ob)
                    then s1\<lparr> css_bottom := Some (px numstr (the (offset_bottom ob))) \<rparr> else s1);
              s3 = (if endsWith (position_name pos) ''left'' \<and> offset_truthy (offset_left ob)
                    then s2\<lparr> css_left := Some (px numstr (the (offset_left ob))) \<rparr> else s2);
              s4 = (if endsWith (position_name pos) ''right'' \<and> offset_truthy (offset_right ob)
                    then s3\<lparr> css_right := Some (px numstr (the (offset_right ob))) \<rparr> else s3)
          in Some s4)"

text \<open>Setting one edge of an offset object, to compare an edge given as 0 with an edge left out.\<close>

datatype edge = EdgeTop | EdgeRight | EdgeBottom | EdgeLeft

fun with_edge :: "edge \<Rightarrow> SileoOffsetValue option \<Rightarrow> SileoOffsetConfig \<Rightarrow> SileoOffsetConfig" where
  "with_edge EdgeTop v c = c\<lparr> offset_top := v \<rparr>"
| "with_edge EdgeRight v c = c\<lparr> offset_right := v \<rparr>"
| "with_edge EdgeBottom v c = c\<lparr> offset_bottom := v \<rparr>"
| "with_edge EdgeLeft v c = c\<lparr> offset_left := v \<rparr>"

fun css_edge :: "edge \<Rightarrow> CSSProperties \<Rightarrow> string option" where
  "css_edge EdgeTop s = css_top s"
| "css_edge EdgeRight s = css_right s"
| "css_edge EdgeBottom s = css_bottom s"
| "css_edge EdgeLeft s = css_left s"

section \<open>Toast visual state machine (src/vue/sileo.ts)\<close>

definition HEIGHT :: number where "HEIGHT = 40"
definition MIN_EXPAND_RATIO :: number where "MIN_EXPAND_RATIO = 2.25"
definition PILL_PADDING :: number where "PILL_PADDING = 10"
definition SWAP_COLLAPSE_MS :: number where "SWAP_COLLAPSE_MS = 200"
definition HEADER_EXIT_MS :: number where "HEADER_EXIT_MS = 150"
definition SWIPE_DISMISS :: number where "SWIPE_DISMISS = 30"
definition SWIPE_MAX :: number where "SWIPE_MAX = 20"
definition minExpanded :: number where "minExpanded = HEIGHT * MIN_EXPAND_RATIO"

fun state_name :: "SileoState \<Rightarrow> string" where
  "state_name Success = ''success''"
| "state_name Loading = ''loading''"
| "state_name Error = ''error''"
| "state_name Warning = ''warning''"
| "state_name Info = ''info''"
| "state_name Action = ''action''"

record View =
  v_title :: "string option"
  v_description :: "renderable option"
  v_state :: SileoState
  v_icon :: "renderable option"
  v_styles :: "SileoStyles option"
  v_button :: "SileoButton option"
  v_fill :: string

text \<open>
  The props the modelled logic reads. \<open>p_onDismiss\<close> says whether an \<open>onDismiss\<close> handler
  was passed. The presentational props (\<open>position\<close>, \<open>expand\<close>, \<open>className\<close>,
  \<open>roundness\<close>) only feed the rendered geometry and are left out.
\<close>

record SileoProps =
  p_id :: string
  p_fill :: string
  p_state :: SileoState
  p_title :: "string option"
  p_description :: "renderable option"
  p_icon :: "renderable option"
  p_styles :: "SileoStyles option"
  p_button :: "SileoButton option"
  p_exiting :: bool
  p_autoExpandDelayMs :: "number option"
  p_autoCollapseDelayMs :: "number option"
  p_canExpand :: "bool option"
  p_interruptKey :: "string option"
  p_refreshKey :: "string option"
  p_onDismiss :: bool

definition resolvedTitle :: "SileoProps \<Rightarrow> string" where
  "resolvedTitle p = (case p_title p of Some t \<Rightarrow> t | None \<Rightarrow> state_name (p_state p))"

definition next_view :: "SileoProps \<Rightarrow> View" where
  "next_view p =
     \<lparr> v_title = Some (resolvedTitle p), v_description = p_description p, v_state = p_state p,
       v_icon = p_icon p, v_styles = p_styles p, v_button = p_button p, v_fill = p_fill p \<rparr>"

text \<open>
  The window's timers and animation frames of one component instance, by the callback
  they run, and the sources of the five watchers as last seen by each of them.
\<close>

datatype timeout_cb = HeaderExit | AutoExpand | AutoCollapse | SwapContent

datatype frame_cb = SetReady | MeasurePill | MeasureContent

type_synonym header_key = "SileoState \<times> string option"

datatype watcher =
  RefreshWatcher | AutoWatcher | HeaderPrevWatcher | HeaderKeyWatcher | HasDescWatcher

record sileo =
  props :: SileoProps
  view :: View
  applied :: "string option"
  isExpanded :: bool
  ready :: bool
  pillWidth :: number
  contentHeight :: number
  headerExitTimer :: "handle option"
  autoExpandTimer :: "handle option"
  autoCollapseTimer :: "handle option"
  swapTimer :: "handle option"
  lastRefreshKey :: "string option"
  pendingView :: "(string \<times> View) option"
  headerPadding :: "number option"
  frozenExpanded :: number
  pointerStartY :: "number option"
  headerCurrent :: "header_key \<times> View"
  headerPrev :: "(header_key \<times> View) option"
  pillRo :: "bool option"
  pillRafId :: handle
  contentRo :: "bool option"
  contentRafId :: handle
  transform :: "number option"
  swipeListening :: bool
  timeouts :: "(handle \<times> number \<times> timeout_cb) list"
  frames :: "(handle \<times> frame_cb) list"
  nextId :: handle
  domMounted :: bool
  unmounted :: bool
  dom_scrollWidth :: number
  dom_padding :: number
  dom_scrollHeight :: number
  dismissCalls :: nat
  seenRefresh :: "bool \<times> string option \<times> View"
  seenAuto :: "number option \<times> number option \<times> bool \<times> bool \<times> bool \<times> string option"
  seenHeaderPrev :: "(header_key \<times> View) option"
  seenHeaderKey :: header_key
  seenHasDesc :: bool

subsection \<open>Computed values\<close>

definition hasDesc :: "sileo \<Rightarrow> bool" where
  "hasDesc s =
     ((case v_description (view s) of None \<Rightarrow> False | Some d \<Rightarrow> truthy d) \<or>
      v_button (view s) \<noteq> None)"

definition isLoading :: "sileo \<Rightarrow> bool" where
  "isLoading s = (v_state (view s) = Loading)"

definition isOpen :: "sileo \<Rightarrow> bool" where
  "isOpen s = (hasDesc s \<and> isExpanded s \<and> \<not> isLoading s)"

definition allowExpand :: "sileo \<Rightarrow> bool" where
  "allowExpand s =
     (if isLoading s then False
      else (case p_canExpand (props s) of
              Some c \<Rightarrow> c
            | None \<Rightarrow>
                (p_interruptKey (props s) = None \<or> p_interruptKey (props s) = Some []) \<or>
                p_interruptKey (props s) = Some (p_id (props s))))"

definition headerKey :: "sileo \<Rightarrow> header_key" where
  "headerKey s = (v_state (view s), v_title (view s))"

definition rawExpanded :: "sileo \<Rightarrow> number" where
  "rawExpanded s =
     (if \<not> hasDesc s then minExpanded else max minExpanded (HEIGHT + contentHeight s))"

text \<open>
  \<open>expanded\<close> is a computed value with a side effect on \<open>frozenExpanded\<close>: it returns the
  value and the state after the evaluation.
\<close>

definition expanded :: "sileo \<Rightarrow> number \<times> sileo" where
  "expanded s =
     (if isOpen s then (rawExpanded s, s\<lparr> frozenExpanded := rawExpanded s \<rparr>)
      else (frozenExpanded s, s))"

subsection \<open>Timers, frames and measurements\<close>

definition setTimeout :: "timeout_cb \<Rightarrow> number \<Rightarrow> sileo \<Rightarrow> handle \<times> sileo" where
  "setTimeout cb delay s =
     (nextId s, s\<lparr> timeouts := timeouts s @ [(nextId s, delay, cb)], nextId := Suc (nextId s) \<rparr>)"

definition clearTimer :: "handle option \<Rightarrow> sileo \<Rightarrow> sileo" where
  "clearTimer t s =
     (case t of None \<Rightarrow> s
      | Some h \<Rightarrow> s\<lparr> timeouts := filter (\<lambda>e. fst e \<noteq> h) (timeouts s) \<rparr>)"

definition requestAnimationFrame :: "frame_cb \<Rightarrow> sileo \<Rightarrow> handle \<times> sileo" where
  "requestAnimationFrame cb s =
     (nextId s, s\<lparr> frames := frames s @ [(nextId s, cb)], nextId := Suc (nextId s) \<rparr>)"

definition cancelAnimationFrame :: "handle \<Rightarrow> sileo \<Rightarrow> sileo" where
  "cancelAnimationFrame h s = s\<lparr> frames := filter (\<lambda>e. fst e \<noteq> h) (frames s) \<rparr>"

definition measurePillWidth :: "sileo \<Rightarrow> sileo" where
  "measurePillWidth s =
     (if \<not> domMounted s then s
      else let s1 = (if headerPadding s = None then s\<lparr> headerPadding := Some (dom_padding s) \<rparr>
                     else s);
               w = dom_scrollWidth s1 + the (headerPadding s1) + PILL_PADDING
           in if w > PILL_PADDING then s1\<lparr> pillWidth := w \<rparr> else s1)"

definition setupPillObserver :: "sileo \<Rightarrow> sileo" where
  "setupPillObserver s =
     (let s1 = (if pillRo s \<noteq> None
                then (cancelAnimationFrame (pillRafId s) s)\<lparr> pillRo := Some False \<rparr> else s)
      in if \<not> domMounted s1 then s1
         else (measurePillWidth s1)\<lparr> pillRo := Some True \<rparr>)"

definition measureContentHeight :: "sileo \<Rightarrow> sileo" where
  "measureContentHeight s =
     (if \<not> (domMounted s \<and> hasDesc s) then s
      else s\<lparr> contentHeight := dom_scrollHeight s \<rparr>)"

definition setupContentObserver :: "sileo \<Rightarrow> sileo" where
  "setupContentObserver s =
     (let s1 = (if contentRo s \<noteq> None
                then (cancelAnimationFrame (contentRafId s) s)\<lparr> contentRo := None \<rparr> else s)
      in if \<not> hasDesc s1 then s1\<lparr> contentHeight := 0 \<rparr>
         else if \<not> domMounted s1 then s1
         else (measureContentHeight s1)\<lparr> contentRo := Some True \<rparr>)"

subsection \<open>Watchers\<close>

text \<open>
  The header layer is kept in step with \<open>view\<close> by a watcher with \<open>flush: "sync"\<close>, which
  runs inside every assignment to \<open>view\<close>; \<open>set_view\<close> is such an assignment.
\<close>

definition sync_header :: "sileo \<Rightarrow> sileo" where
  "sync_header s =
     (if fst (headerCurrent s) = headerKey s
      then s\<lparr> headerCurrent := (headerKey s, view s) \<rparr>
      else s\<lparr> headerPrev := Some (headerCurrent s), headerCurrent := (headerKey s, view s) \<rparr>)"

definition set_view :: "View \<Rightarrow> sileo \<Rightarrow> sileo" where
  "set_view v s = sync_header (s\<lparr> view := v \<rparr>)"

text \<open>The callback of the refresh watcher, on \<open>[open, props.refreshKey, next]\<close>.\<close>

definition refresh_cb :: "bool \<Rightarrow> string option \<Rightarrow> View \<Rightarrow> sileo \<Rightarrow> sileo" where
  "refresh_cb openVal refreshKeyVal nextVal s =
     (case refreshKeyVal of
        None \<Rightarrow>
          (set_view nextVal s)\<lparr> applied := None, pendingView := None, lastRefreshKey := None \<rparr>
      | Some k \<Rightarrow>
          if lastRefreshKey s = Some k then s
          else
            let s1 = s\<lparr> lastRefreshKey := Some k \<rparr>;
                s2 = (if swapTimer s1 \<noteq> None
                      then (clearTimer (swapTimer s1) s1)\<lparr> swapTimer := None \<rparr> else s1)
            in if openVal
               then
                 let s3 = s2\<lparr> pendingView := Some (k, nextVal), isExpanded := False \<rparr>;
                     (h, s4) = setTimeout SwapContent SWAP_COLLAPSE_MS s3
                 in s4\<lparr> swapTimer := Some h \<rparr>
               else (set_view nextVal (s2\<lparr> pendingView := None \<rparr>))\<lparr> applied := Some k \<rparr>)"

text \<open>The callback of the swap timer, and of a timer for the header's exit.\<close>

definition apply_pending :: "sileo \<Rightarrow> sileo" where
  "apply_pending s =
     (case pendingView s of
        None \<Rightarrow> s
      | Some (k, payload) \<Rightarrow> (set_view payload s)\<lparr> applied := Some k, pendingView := None \<rparr>)"

definition swap_cb :: "sileo \<Rightarrow> sileo" where
  "swap_cb s = apply_pending (s\<lparr> swapTimer := None \<rparr>)"

definition header_exit_cb :: "sileo \<Rightarrow> sileo" where
  "header_exit_cb s = s\<lparr> headerExitTimer := None, headerPrev := None \<rparr>"

text \<open>
  The callback of the auto expand/collapse watcher, on \<open>[autoCollapseDelayMs,
  autoExpandDelayMs, hasDesc, allowExpand, exiting, applied]\<close>.
\<close>

definition auto_cb :: "sileo \<Rightarrow> sileo" where
  "auto_cb s =
     (let s1 = clearTimer (autoCollapseTimer s) (clearTimer (autoExpandTimer s) s)
      in if \<not> hasDesc s1 then s1
         else if p_exiting (props s1) \<or> \<not> allowExpand s1 then s1\<lparr> isExpanded := False \<rparr>
         else if p_autoExpandDelayMs (props s1) = None \<and> p_autoCollapseDelayMs (props s1) = None
         then s1
         else
           let expandDelay = (case p_autoExpandDelayMs (props s1) of Some d \<Rightarrow> d | None \<Rightarrow> 0);
               collapseDelay = (case p_autoCollapseDelayMs (props s1) of Some d \<Rightarrow> d | None \<Rightarrow> 0);
               s2 = (if expandDelay > 0
                     then let (h, t) = setTimeout AutoExpand expandDelay s1
                          in t\<lparr> autoExpandTimer := Some h \<rparr>
                     else s1\<lparr> isExpanded := True \<rparr>)
           in if collapseDelay > 0
              then let (h, t) = setTimeout AutoCollapse collapseDelay s2
                   in t\<lparr> autoCollapseTimer := Some h \<rparr>
              else s2)"

definition header_prev_cb :: "sileo \<Rightarrow> sileo" where
  "header_prev_cb s =
     (if headerPrev s = None then s
      else let s1 = clearTimer (headerExitTimer s) s;
               (h, s2) = setTimeout HeaderExit HEADER_EXIT_MS s1
           in s2\<lparr> headerExitTimer := Some h \<rparr>)"

definition refresh_sources :: "sileo \<Rightarrow> bool \<times> string option \<times> View" where
  "refresh_sources s = (isOpen s, p_refreshKey (props s), next_view (props s))"

definition auto_sources ::
  "sileo \<Rightarrow> number option \<times> number option \<times> bool \<times> bool \<times> bool \<times> string option" where
  "auto_sources s =
     (p_autoCollapseDelayMs (props s), p_autoExpandDelayMs (props s), hasDesc s, allowExpand s,
      p_exiting (props s), applied s)"

text \<open>
  One run of a watcher's job: the callback runs when a source differs from what the
  watcher saw last, with the sources' current values. The two watchers with
  \<open>flush: "post"\<close> call \<open>nextTick\<close> with the observer set-up, which runs right after.
\<close>

fun run_watcher :: "watcher \<Rightarrow> sileo \<Rightarrow> sileo" where
  "run_watcher RefreshWatcher s =
     (if refresh_sources s = seenRefresh s then s
      else refresh_cb (isOpen s) (p_refreshKey (props s)) (next_view (props s))
             (s\<lparr> seenRefresh := refresh_sources s \<rparr>))"
| "run_watcher AutoWatcher s =
     (if auto_sources s = seenAuto s then s
      else auto_cb (s\<lparr> seenAuto := auto_sources s \<rparr>))"
| "run_watcher HeaderPrevWatcher s =
     (if headerPrev s = seenHeaderPrev s then s
      else header_prev_cb (s\<lparr> seenHeaderPrev := headerPrev s \<rparr>))"
| "run_watcher HeaderKeyWatcher s =
     (if fst (headerCurrent s) = seenHeaderKey s then s
      else setupPillObserver (s\<lparr> seenHeaderKey := fst (headerCurrent s) \<rparr>))"
| "run_watcher HasDescWatcher s =
     (if hasDesc s = seenHasDesc s then s
      else setupContentObserver (s\<lparr> seenHasDesc := hasDesc s \<rparr>))"

definition quiescent :: "sileo \<Rightarrow> bool" where
  "quiescent s =
     (refresh_sources s = seenRefresh s \<and> auto_sources s = seenAuto s \<and>
      headerPrev s = seenHeaderPrev s \<and> fst (headerCurrent s) = seenHeaderKey s \<and>
      hasDesc s = seenHasDesc s)"

subsection \<open>Event handlers and lifecycle\<close>

definition handleEnter :: "sileo \<Rightarrow> sileo" where
  "handleEnter s = (if hasDesc s then s\<lparr> isExpanded := True \<rparr> else s)"

definition handleLeave :: "sileo \<Rightarrow> sileo" where
  "handleLeave s = s\<lparr> isExpanded := False \<rparr>"

definition handleTransitionEnd :: "string \<Rightarrow> sileo \<Rightarrow> sileo" where
  "handleTransitionEnd propertyName s =
     (if propertyName \<noteq> ''height'' \<and> propertyName \<noteq> ''transform'' then s
      else if isOpen s then s
      else if pendingView s = None then s
      else
        let s1 = (if swapTimer s \<noteq> None
                  then (clearTimer (swapTimer s) s)\<lparr> swapTimer := None \<rparr> else s)
        in apply_pending s1)"

text \<open>
  The swipe handlers. \<open>onButton\<close> says whether the pointer went down on the toast's
  action button (\<open>target.closest("[data-sileo-button]")\<close>); \<open>transform\<close> is the
  \<open>translateY\<close> set on the element, \<open>None\<close> for the empty string.
\<close>

definition handlePointerDown :: "number \<Rightarrow> bool \<Rightarrow> sileo \<Rightarrow> sileo" where
  "handlePointerDown clientY onButton s =
     (if p_exiting (props s) \<or> \<not> p_onDismiss (props s) then s
      else if onButton then s
      else s\<lparr> pointerStartY := Some clientY \<rparr>)"

definition swipe_clamped :: "number \<Rightarrow> number" where
  "swipe_clamped dy = min \<bar>dy\<bar> SWIPE_MAX * (if dy > 0 then 1 else - 1)"

definition onMove :: "number \<Rightarrow> sileo \<Rightarrow> sileo" where
  "onMove clientY s =
     (case pointerStartY s of
        None \<Rightarrow> s
      | Some y0 \<Rightarrow> s\<lparr> transform := Some (swipe_clamped (clientY - y0)) \<rparr>)"

definition onUp :: "number \<Rightarrow> sileo \<Rightarrow> sileo" where
  "onUp clientY s =
     (case pointerStartY s of
        None \<Rightarrow> s
      | Some y0 \<Rightarrow>
          let s1 = s\<lparr> pointerStartY := None, transform := None \<rparr>
          in if \<bar>clientY - y0\<bar> > SWIPE_DISMISS \<and> p_onDismiss (props s1)
             then s1\<lparr> dismissCalls := Suc (dismissCalls s1) \<rparr> else s1)"

text \<open>
  \<open>sileo_setup\<close> runs the component's set-up function on its first props; the auto
  expand/collapse watcher is \<open>immediate\<close>, so its callback runs once there. Handles
  start at 1: the source tests timer handles for truthiness, and the window never hands
  out 0.
\<close>

definition sileo_setup :: "SileoProps \<Rightarrow> sileo" where
  "sileo_setup p =
     (let s0 = \<lparr> props = p, view = next_view p, applied = p_refreshKey p, isExpanded = False,
                 ready = False, pillWidth = 0, contentHeight = 0, headerExitTimer = None,
                 autoExpandTimer = None, autoCollapseTimer = None, swapTimer = None,
                 lastRefreshKey = p_refreshKey p, pendingView = None, headerPadding = None,
                 frozenExpanded = HEIGHT * MIN_EXPAND_RATIO, pointerStartY = None,
                 headerCurrent = ((p_state p, Some (resolvedTitle p)), next_view p),
                 headerPrev = None, pillRo = None, pillRafId = 0, contentRo = None,
                 contentRafId = 0, transform = None, swipeListening = False, timeouts = [],
                 frames = [], nextId = 1, domMounted = False, unmounted = False,
                 dom_scrollWidth = 0, dom_padding = 0, dom_scrollHeight = 0, dismissCalls = 0,
                 seenRefresh = (False, p_refreshKey p, next_view p),
                 seenAuto = (None, None, False, False, False, None),
                 seenHeaderPrev = None,
                 seenHeaderKey = (p_state p, Some (resolvedTitle p)),
                 seenHasDesc = False \<rparr>;
          s1 = s0\<lparr> seenRefresh := refresh_sources s0, seenHasDesc := hasDesc s0 \<rparr>
      in auto_cb (s1\<lparr> seenAuto := auto_sources s1 \<rparr>))"

text \<open>
  \<open>onMounted\<close>, with the measurements of the freshly rendered element, and
  \<open>onUnmounted\<close>. The listeners that \<open>setupSwipe\<close> adds to the element are never removed:
  \<open>swipeListening\<close> stays set after the instance is unmounted.
\<close>

definition sileo_onMounted :: "number \<Rightarrow> number \<Rightarrow> number \<Rightarrow> sileo \<Rightarrow> sileo" where
  "sileo_onMounted scrollWidth padding scrollHeight s =
     (let s1 = s\<lparr> domMounted := True, dom_scrollWidth := scrollWidth, dom_padding := padding,
                  dom_scrollHeight := scrollHeight \<rparr>;
          (h, s2) = requestAnimationFrame SetReady s1;
          s3 = setupContentObserver (setupPillObserver s2)
      in s3\<lparr> swipeListening := True \<rparr>)"

definition sileo_onUnmounted :: "sileo \<Rightarrow> sileo" where
  "sileo_onUnmounted s =
     (let s1 = (if pillRo s \<noteq> None
                then (cancelAnimationFrame (pillRafId s) s)\<lparr> pillRo := Some False \<rparr> else s);
          s2 = (if contentRo s1 \<noteq> None
                then (cancelAnimationFrame (contentRafId s1) s1)\<lparr> contentRo := Some False \<rparr>
                else s1);
          s3 = clearTimer (swapTimer s2) (clearTimer (autoCollapseTimer s2)
                 (clearTimer (autoExpandTimer s2) (clearTimer (headerExitTimer s2) s2)))
      in s3\<lparr> domMounted := False, unmounted := True \<rparr>)"

subsection \<open>Events of one component instance\<close>

text \<open>
  What can happen to an instance: it is mounted, the parent passes new props, the pointer enters
  or leaves the toast, a CSS transition ends, pointer events of a drag arrive, a pending
  timeout or animation frame fires, a resize observer reports a change of the measured
  element, the instance is unmounted.
\<close>

datatype sileo_event =
  Mount number number number
| Props SileoProps
| Enter
| Leave
| TransitionEnd string
| PointerDown number bool
| PointerMove number
| PointerUp number
| Timeout handle
| Frame handle
| PillResize number number
| ContentResize number
| Unmount

definition timeout_fires :: "handle \<Rightarrow> sileo \<Rightarrow> sileo" where
  "timeout_fires h s =
     (case find (\<lambda>e. fst e = h) (timeouts s) of
        None \<Rightarrow> s
      | Some (h', delay, cb) \<Rightarrow>
          let s1 = s\<lparr> timeouts := filter (\<lambda>e. fst e \<noteq> h) (timeouts s) \<rparr>
          in (case cb of
                HeaderExit \<Rightarrow> header_exit_cb s1
              | AutoExpand \<Rightarrow> s1\<lparr> isExpanded := True \<rparr>
              | AutoCollapse \<Rightarrow> s1\<lparr> isExpanded := False \<rparr>
              | SwapContent \<Rightarrow> swap_cb s1))"

definition frame_fires :: "handle \<Rightarrow> sileo \<Rightarrow> sileo" where
  "frame_fires h s =
     (case find (\<lambda>e. fst e = h) (frames s) of
        None \<Rightarrow> s
      | Some (h', cb) \<Rightarrow>
          let s1 = s\<lparr> frames := filter (\<lambda>e. fst e \<noteq> h) (frames s) \<rparr>
          in (case cb of
                SetReady \<Rightarrow> s1\<lparr> ready := True \<rparr>
              | MeasurePill \<Rightarrow> measurePillWidth s1
              | MeasureContent \<Rightarrow> measureContentHeight s1))"

definition pill_resized :: "number \<Rightarrow> number \<Rightarrow> sileo \<Rightarrow> sileo" where
  "pill_resized scrollWidth padding s =
     (let s1 = s\<lparr> dom_scrollWidth := scrollWidth, dom_padding := padding \<rparr>
      in if pillRo s1 \<noteq> Some True then s1
         else let (h, s2) = requestAnimationFrame MeasurePill (cancelAnimationFrame (pillRafId s1) s1)
              in s2\<lparr> pillRafId := h \<rparr>)"

definition content_resized :: "number \<Rightarrow> sileo \<Rightarrow> sileo" where
  "content_resized scrollHeight s =
     (let s1 = s\<lparr> dom_scrollHeight := scrollHeight \<rparr>
      in if contentRo s1 \<noteq> Some True then s1
         else let (h, s2) =
                    requestAnimationFrame MeasureContent (cancelAnimationFrame (contentRafId s1) s1)
              in s2\<lparr> contentRafId := h \<rparr>)"

fun handle_event :: "sileo_event \<Rightarrow> sileo \<Rightarrow> sileo" where
  "handle_event (Mount w pd sh) s = sileo_onMounted w pd sh s"
| "handle_event (Props p) s = s\<lparr> props := p \<rparr>"
| "handle_event Enter s = handleEnter s"
| "handle_event Leave s = handleLeave s"
| "handle_event (TransitionEnd pn) s = handleTransitionEnd pn s"
| "handle_event (PointerDown y b) s = handlePointerDown y b s"
| "handle_event (PointerMove y) s = (if swipeListening s then onMove y s else s)"
| "handle_event (PointerUp y) s = (if swipeListening s then onUp y s else s)"
| "handle_event (Timeout h) s = timeout_fires h s"
| "handle_event (Frame h) s = frame_fires h s"
| "handle_event (PillResize w pd) s = pill_resized w pd s"
| "handle_event (ContentResize h) s = content_resized h s"
| "handle_event Unmount s = sileo_onUnmounted s"

text \<open>
  A step: the event's handler, then the watcher jobs the scheduler runs before and after
  the render (in the order \<open>ws\<close>, which the model leaves open), then the render, which
  evaluates \<open>expanded\<close>. An unmounted instance has no watchers and is not rendered.
\<close>

definition render :: "sileo \<Rightarrow> sileo" where
  "render s = snd (expanded s)"

definition sileo_step :: "sileo_event \<times> watcher list \<Rightarrow> sileo \<Rightarrow> sileo" where
  "sileo_step ev s =
     (let s1 = handle_event (fst ev) s
      in if unmounted s1 then s1 else render (fold run_watcher (snd ev) s1))"

definition sileo_run :: "(sileo_event \<times> watcher list) list \<Rightarrow> sileo \<Rightarrow> sileo" where
  "sileo_run evs s = fold sileo_step evs s"

section \<open>Store (core/store, not among the sources)\<close>

text \<open>
  Modelled from the spec: the Store of \<open>core/store\<close>, whose source is missing. The spec
  (section 4.1) gives its operations: \<open>show\<close> "resolves options against defaults, assigns
  a new id, inserts at the end of the ordered toast list"; the convenience wrappers fix
  the state; \<open>promise\<close> "immediately shows a toast in loading state" and on settlement
  "replaces that toast's content in place (same id, new instanceId)", suppressed when
  the toast was dismissed before; \<open>dismiss(id)\<close> "marks the toast exiting = true if present
  and not already exiting", without an id every toast; \<open>clear\<close> removes all toasts; the
  adapter removes a toast when its exit has completed. The spec does not say how an id
  is made new: the model takes the next value of a counter through a generator \<open>gen\<close>,
  which the theorems assume injective. The resolution of \<open>autopilot\<close> into delays is not
  described by the spec and is left out. Subscribers are notified with the list after
  each operation, which is the list of the state returned.
\<close>

record SileoOptions =
  o_title :: "string option"
  o_description :: "renderable option"
  o_position :: "SileoPosition option"
  o_duration :: "number option"
  o_icon :: "renderable option"
  o_styles :: "SileoStyles option"
  o_fill :: "string option"
  o_roundness :: "number option"
  o_button :: "SileoButton option"

record store =
  st_toasts :: "SileoItem list"
  st_counter :: nat
  st_position :: SileoPosition
  st_options :: SileoOptions

definition no_options :: SileoOptions where
  "no_options =
     \<lparr> o_title = None, o_description = None, o_position = None, o_duration = None,
       o_icon = None, o_styles = None, o_fill = None, o_roundness = None, o_button = None \<rparr>"

definition store_init :: store where
  "store_init =
     \<lparr> st_toasts = [], st_counter = 0, st_position = TopRight, st_options = no_options \<rparr>"

definition resolve_item ::
  "store \<Rightarrow> string \<Rightarrow> string \<Rightarrow> SileoState \<Rightarrow> SileoOptions \<Rightarrow> SileoItem" where
  "resolve_item st i k state opts =
     \<lparr> item_id = i, item_instanceId = k, item_state = state,
       item_title = nullish_coalesce (o_title opts) (o_title (st_options st)),
       item_description = nullish_coalesce (o_description opts) (o_description (st_options st)),
       item_position =
         nullish_coalesce (nullish_coalesce (o_position opts) (o_position (st_options st)))
           (Some (st_position st)),
       item_duration = nullish_coalesce (o_duration opts) (o_duration (st_options st)),
       item_icon = nullish_coalesce (o_icon opts) (o_icon (st_options st)),
       item_fill = nullish_coalesce (o_fill opts) (o_fill (st_options st)),
       item_styles = nullish_coalesce (o_styles opts) (o_styles (st_options st)),
       item_button = nullish_coalesce (o_button opts) (o_button (st_options st)),
       item_roundness = nullish_coalesce (o_roundness opts) (o_roundness (st_options st)),
       item_exiting = False, item_autoExpandDelayMs = None, item_autoCollapseDelayMs = None \<rparr>"

definition create ::
  "(nat \<Rightarrow> string) \<Rightarrow> SileoState \<Rightarrow> SileoOptions \<Rightarrow> store \<Rightarrow> string \<times> store" where
  "create gen state opts st =
     (let i = gen (st_counter st); k = gen (Suc (st_counter st))
      in (i, st\<lparr> st_toasts := st_toasts st @ [resolve_item st i k state opts],
                 st_counter := Suc (Suc (st_counter st)) \<rparr>))"

definition dismiss :: "string \<Rightarrow> store \<Rightarrow> store" where
  "dismiss i st =
     st\<lparr> st_toasts :=
           map (\<lambda>t. if item_id t = i \<and> \<not> item_exiting t then t\<lparr> item_exiting := True \<rparr> else t)
             (st_toasts st) \<rparr>"

definition dismiss_all :: "store \<Rightarrow> store" where
  "dismiss_all st = st\<lparr> st_toasts := map (\<lambda>t. t\<lparr> item_exiting := True \<rparr>) (st_toasts st) \<rparr>"

definition clear :: "store \<Rightarrow> store" where
  "clear st = st\<lparr> st_toasts := [] \<rparr>"

definition remove :: "string \<Rightarrow> store \<Rightarrow> store" where
  "remove i st = st\<lparr> st_toasts := filter (\<lambda>t. item_id t \<noteq> i) (st_toasts st) \<rparr>"

definition settle ::
  "(nat \<Rightarrow> string) \<Rightarrow> string \<Rightarrow> SileoState \<Rightarrow> SileoOptions \<Rightarrow> store \<Rightarrow> store" where
  "settle gen i state opts st =
     (if \<exists>t \<in> set (st_toasts st). item_id t = i \<and> \<not> item_exiting t
      then st\<lparr> st_toasts :=
                 map (\<lambda>t. if item_id t = i
                          then resolve_item st i (gen (st_counter st)) state opts else t)
                   (st_toasts st),
               st_counter := Suc (st_counter st) \<rparr>
      else st)"

text \<open>
  The calls a program can make, \<open>Show\<close> with the state \<open>show\<close> documents as its default
  (a parameter \<open>ds\<close> of the model) and \<open>Wrapper\<close> for \<open>success\<close>, \<open>error\<close>, \<open>warning\<close>,
  \<open>info\<close> and \<open>action\<close>; \<open>Settle\<close> is the settlement of the operation behind an earlier
  \<open>promise\<close>, \<open>Remove\<close> the adapter's removal of a toast whose exit has completed.
\<close>

datatype store_call =
  Show SileoOptions
| Wrapper SileoState SileoOptions
| Promise SileoOptions
| Settle string SileoState SileoOptions
| Dismiss string
| DismissAll
| Clear
| Remove string

fun store_apply :: "(nat \<Rightarrow> string) \<Rightarrow> SileoState \<Rightarrow> store_call \<Rightarrow> store \<Rightarrow> string option \<times> store" where
  "store_apply gen ds (Show opts) st = (let (i, st') = create gen ds opts st in (Some i, st'))"
| "store_apply gen ds (Wrapper state opts) st =
     (let (i, st') = create gen state opts st in (Some i, st'))"
| "store_apply gen ds (Promise opts) st =
     (let (i, st') = create gen Loading opts st in (Some i, st'))"
| "store_apply gen ds (Settle i state opts) st = (None, settle gen i state opts st)"
| "store_apply gen ds (Dismiss i) st = (None, dismiss i st)"
| "store_apply gen ds DismissAll st = (None, dismiss_all st)"
| "store_apply gen ds Clear st = (None, clear st)"
| "store_apply gen ds (Remove i) st = (None, remove i st)"

fun store_apply_all ::
  "(nat \<Rightarrow> string) \<Rightarrow> SileoState \<Rightarrow> store_call list \<Rightarrow> store \<Rightarrow> string list \<times> store" where
  "store_apply_all gen ds [] st = ([], st)"
| "store_apply_all gen ds (c # cs) st =
     (let (r, st1) = store_apply gen ds c st; (ids, st2) = store_apply_all gen ds cs st1
      in ((case r of None \<Rightarrow> ids | Some i \<Rightarrow> i # ids), st2))"

text \<open>
  The store's invariant: the ids and instance ids in the list were all issued by the
  counter, and no id occurs twice. A concrete generator for examples.
\<close>

definition issued :: "(nat \<Rightarrow> string) \<Rightarrow> store \<Rightarrow> string set" where
  "issued gen st = gen ` {..< st_counter st}"

definition store_inv :: "(nat \<Rightarrow> string) \<Rightarrow> store \<Rightarrow> bool" where
  "store_inv gen st =
     (item_id ` set (st_toasts st) \<subseteq> issued gen st \<and> distinct (map item_id (st_toasts st)))"

definition tally :: "nat \<Rightarrow> string" where
  "tally n = replicate n (CHR ''i'')"

section \<open>Specification-side definitions and concrete inputs\<close>

text \<open>
  The adapter's invariant behind hover suspension: every pending timer's handle is
  recorded in \<open>timers\<close>, and \<open>timers\<close> is empty while the pointer hovers.
\<close>

definition handles_recorded :: "toaster \<Rightarrow> bool" where
  "handles_recorded s = (timer_handle ` set (pending s) \<subseteq> snd ` set (timers s))"

definition hover_inv :: "toaster \<Rightarrow> bool" where
  "hover_inv s = (handles_recorded s \<and> (isHovering s \<longrightarrow> timers s = []))"

text \<open>
  The timers the spec asks for: one per toast that is not exiting and whose duration,
  after the default is applied, is a positive number, with that full duration as delay.
\<close>

definition effective_duration :: "number option \<Rightarrow> SileoItem \<Rightarrow> number option" where
  "effective_duration dd t = nullish_coalesce (item_duration t) dd"

definition auto_dismissed :: "number option \<Rightarrow> SileoItem \<Rightarrow> bool" where
  "auto_dismissed dd t =
     (\<not> item_exiting t \<and> (case effective_duration dd t of None \<Rightarrow> False | Some d \<Rightarrow> 0 < d))"

definition full_duration_timers :: "number option \<Rightarrow> SileoItem list \<Rightarrow> (number \<times> string) list" where
  "full_duration_timers dd items =
     map (\<lambda>t. (the (effective_duration dd t), item_id t)) (filter (auto_dismissed dd) items)"

definition timer_requests :: "toaster \<Rightarrow> (number \<times> string) list" where
  "timer_requests s = map (\<lambda>e. (timer_delay e, timer_target e)) (pending s)"

text \<open>Concrete inputs: a toast with a given id, instance id, duration and exiting flag.\<close>

definition toast :: "string \<Rightarrow> string \<Rightarrow> number option \<Rightarrow> bool \<Rightarrow> SileoItem" where
  "toast i k d ex =
     \<lparr> item_id = i, item_instanceId = k, item_state = Success, item_title = None,
       item_description = None, item_position = None, item_duration = d, item_icon = None,
       item_fill = None, item_styles = None, item_button = None, item_roundness = None,
       item_exiting = ex, item_autoExpandDelayMs = None, item_autoCollapseDelayMs = None \<rparr>"

definition example_props :: SileoProps where
  "example_props =
     \<lparr> p_id = ''t1'', p_fill = ''#FFFFFF'', p_state = Success, p_title = Some ''Saved'',
       p_description = Some (Text ''Your changes were saved.''), p_icon = None, p_styles = None,
       p_button = None, p_exiting = False, p_autoExpandDelayMs = None,
       p_autoCollapseDelayMs = None, p_canExpand = Some True, p_interruptKey = None,
       p_refreshKey = Some ''i1'', p_onDismiss = True \<rparr>"

definition example_mounted :: sileo where
  "example_mounted = sileo_step (Mount 120 24 60, []) (sileo_setup example_props)"

definition example_open :: sileo where
  "example_open = sileo_step (Enter, []) example_mounted"

definition example_dragging :: sileo where
  "example_dragging = sileo_step (PointerDown 100 False, []) example_mounted"

text \<open>
  The two signals that complete a pending content swap: the swap timer fires, or a
  transition of \<open>height\<close> or \<open>transform\<close> ends while the card is not open.
\<close>

definition swap_signal :: "sileo \<Rightarrow> sileo_event \<Rightarrow> bool" where
  "swap_signal s e =
     (case e of
        Timeout h \<Rightarrow>
          (case find (\<lambda>x. fst x = h) (timeouts s) of
             Some (h', d, SwapContent) \<Rightarrow> True
           | _ \<Rightarrow> False)
      | TransitionEnd pn \<Rightarrow> (pn = ''height'' \<or> pn = ''transform'') \<and> \<not> isOpen s
      | _ \<Rightarrow> False)"

text \<open>
  The part of an instance's state that decides what is shown and whether the card is
  open; timers, frames, observers and measurements are outside it.
\<close>

definition logic_state ::
  "sileo \<Rightarrow> SileoProps \<times> View \<times> string option \<times> bool \<times> string option \<times>
     (string \<times> View) option \<times> number \<times> (bool \<times> string option \<times> View) \<times>
     (number option \<times> number option \<times> bool \<times> bool \<times> bool \<times> string option)" where
  "logic_state s =
     (props s, view s, applied s, isExpanded s, lastRefreshKey s, pendingView s,
      frozenExpanded s, seenRefresh s, seenAuto s)"

text \<open>
  The key the refresh watcher saw at its last run is \<open>lastRefreshKey\<close>, so a key that
  differs from \<open>lastRefreshKey\<close> makes the watcher run.
\<close>

definition refresh_key_seen :: "sileo \<Rightarrow> bool" where
  "refresh_key_seen s = (fst (snd (seenRefresh s)) = lastRefreshKey s)"

text \<open>
  Concrete inputs for the content swap: the example toast with new content under a new
  refresh key, arriving while the card is open (before and after the refresh watcher has
  run) and while it is collapsed.
\<close>

definition example_props2 :: SileoProps where
  "example_props2 = example_props\<lparr> p_title := Some ''Done'', p_refreshKey := Some ''i2'' \<rparr>"

definition example_swap_open :: sileo where
  "example_swap_open =
     sileo_run [(Mount 120 24 60, []), (Enter, []), (Props example_props2, [])]
       (sileo_setup example_props)"

definition example_swap_pending :: sileo where
  "example_swap_pending =
     sileo_run [(Mount 120 24 60, []), (Enter, []), (Props example_props2, [RefreshWatcher])]
       (sileo_setup example_props)"

definition example_swap_closed :: sileo where
  "example_swap_closed =
     sileo_run [(Mount 120 24 60, []), (Props example_props2, [])] (sileo_setup example_props)"

text \<open>
  The same swap with the pointer coming back: the card is open when the new key arrives,
  the refresh watcher keeps the new content pending and collapses the card; the pointer
  leaves and enters again before the swap timer (handle 2) has fired, which opens the
  card again; then the swap timer fires.
\<close>

definition example_swap_reopened :: sileo where
  "example_swap_reopened =
     sileo_run
       [(Mount 120 24 60, []), (Enter, [RefreshWatcher]),
        (Props example_props2, [RefreshWatcher, RefreshWatcher]),
        (Leave, [RefreshWatcher]), (Enter, [RefreshWatcher])]
       (sileo_setup example_props)"

definition example_swap_fired :: sileo where
  "example_swap_fired =
     sileo_step (Timeout 2, [AutoWatcher, HeaderPrevWatcher, HeaderKeyWatcher])
       example_swap_reopened"

text \<open>A toast that was dismissed: its id was issued, and it is exiting wherever it still is.\<close>

definition dismissed :: "(nat \<Rightarrow> string) \<Rightarrow> string \<Rightarrow> store \<Rightarrow> bool" where
  "dismissed gen i st =
     (i \<in> issued gen st \<and> list_all (\<lambda>t. item_id t \<noteq> i \<or> item_exiting t) (st_toasts st))"

definition example_calls :: "store_call list" where
  "example_calls =
     [Show no_options, Wrapper Error no_options, Dismiss [], Promise no_options]"

section \<open>The adapter with its toasts\<close>

text \<open>
  The adapter renders one component instance per toast of its list. This section puts the
  two models together: the adapter's state, and the instances it has rendered.
\<close>

subsection \<open>Flushing the watchers of an instance\<close>

text \<open>
  After a handler has run, Vue runs the watchers whose sources have changed, in the order
  in which they were triggered, until none is due, and then renders. \<open>flush ws\<close> runs the
  watchers \<open>ws\<close> (any order the scheduler may have chosen; a watcher that is not due does
  nothing, see \<open>run_watcher\<close>) and then one more round in a fixed order, after which no
  watcher is due (lemma \<open>settle_quiescent\<close>). A schedule \<open>ws\<close> that already ends with no
  watcher due is left as it is by the extra round, so every run of the scheduler is a
  \<open>flush\<close>. \<open>finish\<close> is the flush followed by the render.
\<close>

definition watcher_order :: "watcher list" where
  "watcher_order =
     [RefreshWatcher, AutoWatcher, RefreshWatcher, HeaderPrevWatcher, HeaderKeyWatcher,
      HasDescWatcher]"

definition flush :: "watcher list \<Rightarrow> sileo \<Rightarrow> sileo" where
  "flush ws s = fold run_watcher watcher_order (fold run_watcher ws s)"

definition finish :: "watcher list \<Rightarrow> sileo \<Rightarrow> sileo" where
  "finish ws s = render (flush ws s)"

text \<open>An event of one instance, followed by the flush of its watchers and the render.\<close>

definition deliver :: "watcher list \<Rightarrow> sileo_event \<Rightarrow> sileo \<Rightarrow> sileo" where
  "deliver ws e g = finish ws (handle_event e g)"

text \<open>
  The events an instance receives from the browser on its own: the end of a transition,
  pointer events of a drag, a timeout or an animation frame that fires, a resize. Mount,
  new props, the pointer entering or leaving and unmount come through the adapter.
\<close>

fun dom_event :: "sileo_event \<Rightarrow> bool" where
  "dom_event (Mount w pd sh) = False"
| "dom_event (Props p) = False"
| "dom_event Enter = False"
| "dom_event Leave = False"
| "dom_event Unmount = False"
| "dom_event e = True"

subsection \<open>The rendered children (render function of the adapter)\<close>

text \<open>
  The adapter groups the toasts by position (\<open>t.position ?? props.position\<close>) into one
  section per position and renders in it one \<open>Sileo\<close> per toast, keyed by the toast's id;
  \<open>child_key\<close> is the pair of both. \<open>child_props\<close> are the props it passes:
  \<open>refreshKey: item.instanceId\<close>,
  \<open>canExpand: activeId === undefined || activeId === item.id\<close>, a dismiss handler, no
  \<open>interruptKey\<close>; an absent \<open>fill\<close> takes the prop's default.
\<close>

type_synonym toast_key = "SileoPosition \<times> string"

definition child_key :: "SileoPosition \<Rightarrow> SileoItem \<Rightarrow> toast_key" where
  "child_key pos item = (case item_position item of Some p \<Rightarrow> p | None \<Rightarrow> pos, item_id item)"

definition child_props :: "toaster \<Rightarrow> SileoItem \<Rightarrow> SileoProps" where
  "child_props a item =
     \<lparr> p_id = item_id item,
       p_fill = (case item_fill item of Some f \<Rightarrow> f | None \<Rightarrow> ''#FFFFFF''),
       p_state = item_state item,
       p_title = item_title item,
       p_description = item_description item,
       p_icon = item_icon item,
       p_styles = item_styles item,
       p_button = item_button item,
       p_exiting = item_exiting item,
       p_autoExpandDelayMs = item_autoExpandDelayMs item,
       p_autoCollapseDelayMs = item_autoCollapseDelayMs item,
       p_canExpand = Some (activeId a = None \<or> activeId a = Some (item_id item)),
       p_interruptKey = None,
       p_refreshKey = Some (item_instanceId item),
       p_onDismiss = True \<rparr>"

text \<open>
  What the model leaves to the environment at each step: for each instance the order in
  which the scheduler runs its watchers, and the measurements of its element when it is
  mounted (\<open>scrollWidth\<close>, padding, \<open>scrollHeight\<close>).
\<close>

record environment =
  env_schedule :: "toast_key \<Rightarrow> watcher list"
  env_layout :: "toast_key \<Rightarrow> number \<times> number \<times> number"

text \<open>
  The state: the adapter, its \<open>position\<close> prop, and the instances it has rendered, in the
  order of the list.
\<close>

record app =
  adapter :: toaster
  position :: SileoPosition
  children :: "(toast_key \<times> sileo) list"

definition app_init :: "SileoPosition \<Rightarrow> app" where
  "app_init pos = \<lparr> adapter = toaster_init, position = pos, children = [] \<rparr>"

text \<open>
  Rendering the adapter: a toast whose key has an instance gets its new props, the
  watchers of the instance are flushed and it renders; a toast whose key has none gets a
  fresh instance (\<open>setup\<close>, \<open>onMounted\<close>, flush, render); the instances of keys that are no
  longer in the list are unmounted and dropped.
\<close>

fun render_with ::
  "watcher list \<Rightarrow> number \<times> number \<times> number \<Rightarrow> SileoProps \<Rightarrow> sileo option \<Rightarrow> sileo" where
  "render_with ws (w, pd, sh) p None = finish ws (sileo_onMounted w pd sh (sileo_setup p))"
| "render_with ws l p (Some g) = finish ws (g\<lparr> props := p \<rparr>)"

definition render_child ::
  "environment \<Rightarrow> toaster \<Rightarrow> (toast_key \<times> sileo) list \<Rightarrow> toast_key \<Rightarrow> SileoItem \<Rightarrow> sileo" where
  "render_child env a old k item =
     render_with (env_schedule env k) (env_layout env k) (child_props a item) (map_of old k)"

fun render_list ::
  "environment \<Rightarrow> toaster \<Rightarrow> SileoPosition \<Rightarrow> (toast_key \<times> sileo) list \<Rightarrow> SileoItem list \<Rightarrow>
     (toast_key \<times> sileo) list" where
  "render_list env a pos old [] = []"
| "render_list env a pos old (item # items) =
     (child_key pos item, render_child env a old (child_key pos item) item) #
       render_list env a pos old items"

definition render_children :: "environment \<Rightarrow> app \<Rightarrow> app" where
  "render_children env s =
     s\<lparr> children := render_list env (adapter s) (position s) (children s) (toasts (adapter s)) \<rparr>"

text \<open>\<open>update_child k f\<close> applies \<open>f\<close> to the instance with key \<open>k\<close>.\<close>

fun update_list ::
  "toast_key \<Rightarrow> (sileo \<Rightarrow> sileo) \<Rightarrow> (toast_key \<times> sileo) list \<Rightarrow> (toast_key \<times> sileo) list" where
  "update_list k f [] = []"
| "update_list k f (c # cs) =
     (if fst c = k then (fst c, f (snd c)) else c) # update_list k f cs"

definition update_child :: "toast_key \<Rightarrow> (sileo \<Rightarrow> sileo) \<Rightarrow> app \<Rightarrow> app" where
  "update_child k f s = s\<lparr> children := update_list k f (children s) \<rparr>"

subsection \<open>Events\<close>

text \<open>
  The adapter is mounted (with the store's list at that moment); the store notifies it of
  a new list; its \<open>position\<close> prop changes; the pointer enters or leaves a rendered toast
  (\<open>handleEnter\<close> and \<open>handleLeave\<close> of the instance call the adapter's \<open>enter\<close> and
  \<open>leave\<close> for that toast's id first, then set \<open>isExpanded\<close>; then the adapter renders);
  a rendered toast receives an event of its own; one of the adapter's dismiss timers
  fires; the adapter is unmounted. A swipe or a dismiss timer only asks the store to
  dismiss (\<open>dismissCalls\<close>, \<open>dismissRequests\<close>); the list the store then sends is a
  \<open>StoreNotify\<close> of its own.
\<close>

datatype app_event =
  ToasterMounted "SileoItem list"
| StoreNotify "SileoItem list"
| PositionProp SileoPosition
| ToastEnter toast_key
| ToastLeave toast_key
| ToastEvent toast_key sileo_event
| DismissTimerFires handle
| ToasterUnmounted

fun app_step :: "number option \<Rightarrow> environment \<Rightarrow> app_event \<Rightarrow> app \<Rightarrow> app" where
  "app_step dd env (ToasterMounted ts) s =
     render_children env (s\<lparr> adapter := onMounted dd ts (adapter s) \<rparr>)"
| "app_step dd env (StoreNotify ts) s =
     (if listening (adapter s)
      then render_children env (s\<lparr> adapter := set_toasts dd ts (adapter s) \<rparr>) else s)"
| "app_step dd env (PositionProp pos) s =
     (if listening (adapter s) then render_children env (s\<lparr> position := pos \<rparr>) else s)"
| "app_step dd env (ToastEnter k) s =
     (if k \<in> fst ` set (children s)
      then render_children env
             ((update_child k handleEnter s)\<lparr> adapter := enter (snd k) (adapter s) \<rparr>)
      else s)"
| "app_step dd env (ToastLeave k) s =
     (if k \<in> fst ` set (children s)
      then render_children env
             ((update_child k handleLeave s)\<lparr> adapter := leave dd (adapter s) \<rparr>)
      else s)"
| "app_step dd env (ToastEvent k e) s =
     (if dom_event e
      then update_child k (deliver (env_schedule env k) e) s else s)"
| "app_step dd env (DismissTimerFires h) s = s\<lparr> adapter := timer_fires h (adapter s) \<rparr>"
| "app_step dd env ToasterUnmounted s =
     s\<lparr> adapter := onUnmounted (adapter s), children := [] \<rparr>"

definition app_run :: "number option \<Rightarrow> (environment \<times> app_event) list \<Rightarrow> app \<Rightarrow> app" where
  "app_run dd es s = fold (\<lambda>ee. app_step dd (fst ee) (snd ee)) es s"

subsection \<open>Open toasts and the active toast\<close>

text \<open>
  The toasts whose card is open (\<open>open = hasDesc && isExpanded && !isLoading\<close>), and whether
  the adapter permits the toast with id \<open>i\<close> to expand (its \<open>canExpand\<close>).
\<close>

definition open_toasts :: "app \<Rightarrow> toast_key list" where
  "open_toasts s = map fst (filter (\<lambda>c. isOpen (snd c)) (children s))"

definition permitted :: "toaster \<Rightarrow> string \<Rightarrow> bool" where
  "permitted a i = (activeId a = None \<or> activeId a = Some i)"

text \<open>The lists the store sends have pairwise distinct ids.\<close>

fun distinct_ids :: "app_event \<Rightarrow> bool" where
  "distinct_ids (ToasterMounted ts) = distinct (map item_id ts)"
| "distinct_ids (StoreNotify ts) = distinct (map item_id ts)"
| "distinct_ids e = True"

text \<open>The events that are the pointer entering or leaving a toast.\<close>

fun hover_event :: "app_event \<Rightarrow> bool" where
  "hover_event (ToastEnter k) = True"
| "hover_event (ToastLeave k) = True"
| "hover_event e = False"

subsection \<open>Invariants of an instance under the adapter\<close>

text \<open>
  The components of the sources the auto expand/collapse watcher saw at its last run.
\<close>

definition seen_hasDesc :: "sileo \<Rightarrow> bool" where
  "seen_hasDesc s = fst (snd (snd (seenAuto s)))"

definition seen_allow :: "sileo \<Rightarrow> bool" where
  "seen_allow s = fst (snd (snd (snd (seenAuto s))))"

definition seen_exiting :: "sileo \<Rightarrow> bool" where
  "seen_exiting s = fst (snd (snd (snd (snd (seenAuto s)))))"

definition seen_applied :: "sileo \<Rightarrow> string option" where
  "seen_applied s = snd (snd (snd (snd (snd (seenAuto s)))))"

text \<open>
  \<open>controlled\<close>: the instance is rendered by the adapter, which always passes
  \<open>refreshKey\<close> and \<open>canExpand\<close>. \<open>pending_ok\<close>: a pending view belongs to the last key seen
  and is only kept for a card with a description that is not loading. \<open>expand_timers_ok\<close>:
  every pending auto-expand timer is the one the instance holds, set by a run of the
  watcher that saw the card permitted to expand and not exiting. \<open>micro_inv b\<close> holds
  during a step, between the handler and the end of the flush: an open card is permitted
  to expand unless the auto watcher is still due, and an exiting card is open only if
  \<open>b\<close>. \<open>good\<close> holds between steps: no watcher is due, and an open card is permitted to
  expand.
\<close>

definition canExpand :: "sileo \<Rightarrow> bool" where
  "canExpand s = (p_canExpand (props s) = Some True)"

definition controlled :: "sileo \<Rightarrow> bool" where
  "controlled s =
     (p_refreshKey (props s) \<noteq> None \<and> lastRefreshKey s \<noteq> None \<and> p_canExpand (props s) \<noteq> None)"

definition pending_ok :: "sileo \<Rightarrow> bool" where
  "pending_ok s =
     ((pendingView s = None \<longrightarrow> applied s = lastRefreshKey s) \<and>
      (\<forall>k v. pendingView s = Some (k, v) \<longrightarrow>
         lastRefreshKey s = Some k \<and> hasDesc s \<and> \<not> isLoading s))"

definition refresh_due :: "sileo \<Rightarrow> bool" where
  "refresh_due s = (p_refreshKey (props s) \<noteq> lastRefreshKey s)"

definition auto_due :: "sileo \<Rightarrow> bool" where
  "auto_due s = (auto_sources s \<noteq> seenAuto s)"

definition applied_in_step :: "sileo \<Rightarrow> bool" where
  "applied_in_step s = (refresh_due s \<longrightarrow> seen_applied s = applied s)"

definition expand_timers_ok :: "sileo \<Rightarrow> bool" where
  "expand_timers_ok s =
     (\<forall>e \<in> set (timeouts s). snd (snd e) = AutoExpand \<longrightarrow>
        autoExpandTimer s = Some (fst e) \<and> seen_hasDesc s \<and> seen_allow s \<and> \<not> seen_exiting s)"

definition open_allowed :: "sileo \<Rightarrow> bool" where
  "open_allowed s = (isOpen s \<longrightarrow> auto_due s \<or> canExpand s)"

definition exiting_stays_closed :: "bool \<Rightarrow> sileo \<Rightarrow> bool" where
  "exiting_stays_closed b s = (p_exiting (props s) \<and> isOpen s \<longrightarrow> auto_due s \<or> b)"

definition micro_inv :: "bool \<Rightarrow> sileo \<Rightarrow> bool" where
  "micro_inv b s =
     (controlled s \<and> refresh_key_seen s \<and> pending_ok s \<and> applied_in_step s \<and>
      expand_timers_ok s \<and> open_allowed s \<and> exiting_stays_closed b s)"

definition good :: "sileo \<Rightarrow> bool" where
  "good s =
     (quiescent s \<and> controlled s \<and> refresh_key_seen s \<and> pending_ok s \<and>
      expand_timers_ok s \<and> (isOpen s \<longrightarrow> canExpand s))"

text \<open>\<open>timers_shrink s t\<close>: from \<open>s\<close> to \<open>t\<close> no auto-expand timer was added.\<close>

definition timers_shrink :: "sileo \<Rightarrow> sileo \<Rightarrow> bool" where
  "timers_shrink s t =
     (autoExpandTimer t = autoExpandTimer s \<and>
      (\<forall>e \<in> set (timeouts t). snd (snd e) = AutoExpand \<longrightarrow> e \<in> set (timeouts s)))"

text \<open>Props as the adapter passes them.\<close>

definition controlled_props :: "SileoProps \<Rightarrow> bool" where
  "controlled_props p = (p_refreshKey p \<noteq> None \<and> p_canExpand p \<noteq> None)"

text \<open>The refresh watcher is not due.\<close>

definition refresh_clean :: "sileo \<Rightarrow> bool" where
  "refresh_clean s = (refresh_sources s = seenRefresh s)"

subsection \<open>Invariants of the adapter with its toasts\<close>

text \<open>
  The adapter: \<open>latestId\<close> is the latest toast that is not exiting; while the pointer is on
  no toast the active toast is that one; there is no active toast only when every toast
  is exiting. The children: each is \<open>good\<close> and has the props the adapter passes to its
  toast; at most one is open.
\<close>

definition adapter_inv :: "toaster \<Rightarrow> bool" where
  "adapter_inv a =
     (latestId a = latest (toasts a) \<and>
      (\<not> isHovering a \<longrightarrow> activeId a = latest (toasts a)) \<and>
      (activeId a = None \<longrightarrow> latest (toasts a) = None) \<and>
      distinct (map item_id (toasts a)))"

definition child_ok :: "app \<Rightarrow> toast_key \<times> sileo \<Rightarrow> bool" where
  "child_ok s c =
     (good (snd c) \<and>
      (\<exists>t \<in> set (toasts (adapter s)).
         child_key (position s) t = fst c \<and> props (snd c) = child_props (adapter s) t))"

definition app_inv :: "app \<Rightarrow> bool" where
  "app_inv s =
     (adapter_inv (adapter s) \<and> distinct (map (\<lambda>c. snd (fst c)) (children s)) \<and>
      (\<forall>c \<in> set (children s). child_ok s c) \<and> length (open_toasts s) \<le> 1)"

subsection \<open>A concrete run\<close>

text \<open>
  Two toasts with a description, \<open>a\<close> then \<open>b\<close>; the pointer enters \<open>a\<close>; while it is still
  there, the store sends a list with a third toast \<open>c\<close>.
\<close>

definition card_toast :: "string \<Rightarrow> string \<Rightarrow> SileoItem" where
  "card_toast i k = (toast i k None False)\<lparr> item_description := Some (Text ''details'') \<rparr>"

definition example_env :: environment where
  "example_env = \<lparr> env_schedule = (\<lambda>k. []), env_layout = (\<lambda>k. (120, 24, 60)) \<rparr>"

definition example_hovering :: app where
  "example_hovering =
     app_run (Some 6000)
       [(example_env, ToasterMounted [card_toast ''a'' ''1'', card_toast ''b'' ''2'']),
        (example_env, ToastEnter (TopRight, ''a''))]
       (app_init TopRight)"

definition example_interrupted :: app where
  "example_interrupted =
     app_step (Some 6000) example_env
       (StoreNotify [card_toast ''a'' ''1'', card_toast ''b'' ''2'', card_toast ''c'' ''3''])
       example_hovering"

section \<open>View adapter: timers and hover\<close>

lemma fold_clearTimeout:
  "fold clearTimeout hs p = filter (\<lambda>e. timer_handle e \<notin> set hs) p"
  by (induction hs arbitrary: p) (auto simp: clearTimeout_def intro: filter_cong)

lemma schedule_loop_recorded:
  "handles_recorded s \<Longrightarrow> handles_recorded (schedule_loop dd items s)"
proof (induction items arbitrary: s)
  case Nil then show ?case by simp
next
  case (Cons t ts)
  have step: "handles_recorded (s\<lparr> timers := timers s @ [(k, nextHandle s)],
      pending := pending s @ [\<lparr> timer_handle = nextHandle s, timer_delay = d, timer_target = i \<rparr>],
      nextHandle := Suc (nextHandle s) \<rparr>)" for k d i
    using Cons.prems by (auto simp: handles_recorded_def)
  show ?case
    using Cons.IH [OF Cons.prems] Cons.IH [OF step]
    by (simp split: option.split)
qed

lemma schedule_loop_fields [simp]:
  "toasts (schedule_loop dd items s) = toasts s"
  "isHovering (schedule_loop dd items s) = isHovering s"
  "activeId (schedule_loop dd items s) = activeId s"
  "latestId (schedule_loop dd items s) = latestId s"
  "listening (schedule_loop dd items s) = listening s"
  "dismissRequests (schedule_loop dd items s) = dismissRequests s"
  by (induction items arbitrary: s; simp split: option.split)+

lemma schedule_recorded:
  "handles_recorded s \<Longrightarrow> handles_recorded (schedule dd items s)"
  by (simp add: schedule_def schedule_loop_recorded)

lemma schedule_hover_timers:
  "isHovering s \<longrightarrow> timers s = [] \<Longrightarrow>
   isHovering (schedule dd items s) \<longrightarrow> timers (schedule dd items s) = []"
  by (simp add: schedule_def)

lemma prune_recorded:
  assumes "handles_recorded s"
  shows "handles_recorded
    (s\<lparr> toasts := items,
        pending := fold clearTimeout (map snd (filter (\<lambda>kh. fst kh \<notin> set ks) (timers s))) (pending s),
        timers := filter (\<lambda>kh. fst kh \<in> set ks) (timers s) \<rparr>)"
  using assms by (fastforce simp: handles_recorded_def fold_clearTimeout)

lemma manage_timers_inv: "hover_inv s \<Longrightarrow> hover_inv (manage_timers dd items s)"
  unfolding hover_inv_def manage_timers_def Let_def
  by (intro conjI schedule_recorded schedule_hover_timers prune_recorded) auto

lemma track_latest_inv: "hover_inv s \<Longrightarrow> hover_inv (track_latest s)"
  by (simp add: hover_inv_def track_latest_def handles_recorded_def)

lemma set_toasts_inv: "hover_inv s \<Longrightarrow> hover_inv (set_toasts dd items s)"
  by (simp add: set_toasts_def manage_timers_inv track_latest_inv)

lemma enter_inv: "hover_inv s \<Longrightarrow> hover_inv (enter i s)"
  by (auto simp: hover_inv_def enter_def Let_def clearAllTimers_def handles_recorded_def
      fold_clearTimeout)

lemma leave_inv: "hover_inv s \<Longrightarrow> hover_inv (leave dd s)"
  unfolding hover_inv_def leave_def Let_def
  by (auto simp: schedule_def handles_recorded_def
      intro!: schedule_loop_recorded [unfolded handles_recorded_def])

lemma onMounted_inv: "hover_inv s \<Longrightarrow> hover_inv (onMounted dd ts s)"
  unfolding onMounted_def by (rule set_toasts_inv) (simp add: hover_inv_def handles_recorded_def)

lemma onUnmounted_inv: "hover_inv s \<Longrightarrow> hover_inv (onUnmounted s)"
  by (auto simp: hover_inv_def onUnmounted_def clearAllTimers_def handles_recorded_def
      fold_clearTimeout)

lemma timer_fires_inv: "hover_inv s \<Longrightarrow> hover_inv (timer_fires h s)"
  by (auto simp: hover_inv_def timer_fires_def clearTimeout_def handles_recorded_def
      split: option.split)

lemma toaster_step_inv: "hover_inv s \<Longrightarrow> hover_inv (toaster_step dd e s)"
  by (cases e)
    (simp_all add: onMounted_inv set_toasts_inv enter_inv leave_inv timer_fires_inv
      onUnmounted_inv)

lemma toaster_run_inv: "hover_inv s \<Longrightarrow> hover_inv (toaster_run dd es s)"
  unfolding toaster_run_def by (induction es arbitrary: s) (simp_all add: toaster_step_inv)

lemma toaster_init_inv: "hover_inv toaster_init"
  by (simp add: hover_inv_def toaster_init_def handles_recorded_def)

text \<open>
  What one pass of \<open>schedule_loop\<close> adds, for a list whose timeout keys are pairwise
  distinct and have no timer yet: a timer per toast that is not exiting and has a
  positive duration (its own, or the default when it has none), with that duration.
\<close>

lemma schedule_loop_requests:
  assumes "distinct (map timeoutKey items)"
    and "timeoutKey ` set items \<inter> fst ` set (timers s) = {}"
  shows "timer_requests (schedule_loop dd items s) = timer_requests s @ full_duration_timers dd items"
  using assms
proof (induction items arbitrary: s)
  case Nil then show ?case by (simp add: full_duration_timers_def)
next
  case (Cons t ts)
  have d: "distinct (map timeoutKey ts)" and nk: "timeoutKey t \<notin> timeoutKey ` set ts"
    and nt: "timeoutKey t \<notin> fst ` set (timers s)"
    and dj: "timeoutKey ` set ts \<inter> fst ` set (timers s) = {}"
    using Cons.prems by auto
  show ?case
  proof (cases "auto_dismissed dd t")
    case False
    then have "schedule_loop dd (t # ts) s = schedule_loop dd ts s"
      by (auto simp: auto_dismissed_def effective_duration_def split: option.splits)
    with False Cons.IH [OF d dj] show ?thesis
      by (simp add: full_duration_timers_def)
  next
    case True
    then obtain dur where dur: "effective_duration dd t = Some dur" "0 < dur" "\<not> item_exiting t"
      by (auto simp: auto_dismissed_def split: option.splits)
    let ?s1 = "s\<lparr> timers := timers s @ [(timeoutKey t, nextHandle s)],
                   pending := pending s @
                     [\<lparr> timer_handle = nextHandle s, timer_delay = dur, timer_target = item_id t \<rparr>],
                   nextHandle := Suc (nextHandle s) \<rparr>"
    have eq: "schedule_loop dd (t # ts) s = schedule_loop dd ts ?s1"
      using dur nt by (simp add: effective_duration_def)
    have dj1: "timeoutKey ` set ts \<inter> fst ` set (timers ?s1) = {}"
      using dj nk by auto
    show ?thesis
      unfolding eq using Cons.IH [OF d dj1] True dur
      by (simp add: full_duration_timers_def timer_requests_def)
  qed
qed

lemma leave_requests:
  assumes "hover_inv s" and "isHovering s" and "distinct (map timeoutKey (toasts s))"
  shows "\<not> isHovering (leave dd s) \<and> timer_requests (leave dd s) = full_duration_timers dd (toasts s)"
proof -
  from assms have t: "timers s = []" and p: "pending s = []"
    by (auto simp: hover_inv_def handles_recorded_def)
  let ?s1 = "s\<lparr> activeId := latestId s, isHovering := False \<rparr>"
  have "leave dd s = schedule_loop dd (toasts s) ?s1"
    using assms(2) by (simp add: leave_def schedule_def)
  moreover have "timer_requests (schedule_loop dd (toasts s) ?s1) =
      timer_requests ?s1 @ full_duration_timers dd (toasts s)"
    by (rule schedule_loop_requests) (use assms(3) t in auto)
  ultimately show ?thesis
    using p by (simp add: timer_requests_def)
qed

lemmas toaster_eval =
  toaster_run_def toaster_init_def onMounted_def onUnmounted_def set_toasts_def
  manage_timers_def track_latest_def latest_def schedule_def enter_def leave_def
  clearAllTimers_def clearTimeout_def timer_fires_def toast_def timeoutKey_def
  nullish_coalesce_def timer_requests_def full_duration_timers_def auto_dismissed_def
  effective_duration_def

text \<open>
  Claim C1 (the part the code does not meet). The claim says that a toast whose duration
  is \<open>null\<close> never gets an auto-dismiss timer. In \<open>schedule\<close> the duration is first
  replaced by \<open>DEFAULT_DURATION\<close> when it is \<open>null\<close> (\<open>item.duration ?? DEFAULT_DURATION\<close>),
  so the test \<open>dur === null\<close> that follows never sees the toast's own \<open>null\<close>: with a
  default of 6000 ms, a mounted adapter that tracks one toast of duration \<open>null\<close>
  schedules a timer of 6000 ms for it, and when that timer fires the toast's dismissal is
  requested.
\<close>

theorem null_duration_falls_back_to_default:
  "timer_requests (toaster_run (Some 6000) [Mounted [toast ''t1'' ''i1'' None False]] toaster_init)
     = [(6000, ''t1'')] \<and>
   dismissRequests (toaster_run (Some 6000)
     [Mounted [toast ''t1'' ''i1'' None False], TimerFires 0] toaster_init) = [''t1'']"
  by (simp add: toaster_eval)

text \<open>
  Claim C4. In every state the adapter reaches from its initial state in which the
  pointer hovers over one of its toasts, no auto-dismiss timer is pending and none is
  recorded (so none was scheduled since the hover began, whatever the store sent), and
  a timer callback cannot request a dismissal. When the pointer then leaves, the hover
  flag is cleared and the pending timers are exactly one per toast of the current list
  that is not exiting and has a positive duration, each with its full duration as delay:
  nothing of the time a toast had already been shown is taken off. (The last part is
  stated for a list whose timeout keys are pairwise distinct, as the store's are.)
\<close>

theorem hover_suspends_and_leave_restarts:
  assumes "s = toaster_run dd es toaster_init" and "isHovering s"
  shows "pending s = [] \<and> timers s = [] \<and>
    (\<forall>h. dismissRequests (toaster_step dd (TimerFires h) s) = dismissRequests s) \<and>
    (distinct (map timeoutKey (toasts s)) \<longrightarrow>
       \<not> isHovering (toaster_step dd (MouseLeave i) s) \<and>
       timer_requests (toaster_step dd (MouseLeave i) s) = full_duration_timers dd (toasts s))"
proof -
  have inv: "hover_inv s"
    unfolding assms(1) by (rule toaster_run_inv [OF toaster_init_inv])
  with assms(2) have t: "timers s = []" and p: "pending s = []"
    by (auto simp: hover_inv_def handles_recorded_def)
  have f: "\<forall>h. dismissRequests (toaster_step dd (TimerFires h) s) = dismissRequests s"
    using p by (simp add: timer_fires_def)
  show ?thesis
    using t p f leave_requests [OF inv assms(2)] by simp
qed

theorem hover_suspends_and_leave_restarts_witness:
  "isHovering (toaster_run (Some 6000)
      [Mounted [toast ''a'' ''1'' (Some 500) False, toast ''b'' ''1'' None False], MouseEnter ''a'']
      toaster_init) \<and>
   pending (toaster_run (Some 6000)
      [Mounted [toast ''a'' ''1'' (Some 500) False, toast ''b'' ''1'' None False], MouseEnter ''a'']
      toaster_init) = [] \<and>
   timer_requests (toaster_run (Some 6000)
      [Mounted [toast ''a'' ''1'' (Some 500) False, toast ''b'' ''1'' None False], MouseEnter ''a'',
       MouseLeave ''a'']
      toaster_init) = [(500, ''a''), (6000, ''b'')]"
  using hover_suspends_and_leave_restarts
    [of "toaster_run (Some 6000)
      [Mounted [toast ''a'' ''1'' (Some 500) False, toast ''b'' ''1'' None False], MouseEnter ''a'']
      toaster_init" "Some 6000"
      "[Mounted [toast ''a'' ''1'' (Some 500) False, toast ''b'' ''1'' None False], MouseEnter ''a'']"
      "''a''"]
  by (simp add: toaster_eval)

section \<open>View adapter: viewport offsets\<close>

text \<open>
  Claim C10. In \<open>getViewportStyle\<close> (the same code in both adapters) a single offset value
  gives the style of the offset object that has this value on all four edges; an edge
  whose value is the number 0 or the empty string gives the same style as an object
  without that edge, and no CSS offset for the edge; and the single value 0 gives the
  empty style.
\<close>

theorem zero_offset_is_absent:
  "getViewportStyle numstr (Some (OffsetValue v)) pos =
     getViewportStyle numstr (Some (OffsetObject
       \<lparr> offset_top = Some v, offset_right = Some v, offset_bottom = Some v, offset_left = Some v \<rparr>)) pos
   \<and> getViewportStyle numstr (Some (OffsetObject (with_edge e (Some (Num 0)) c))) pos =
     getViewportStyle numstr (Some (OffsetObject (with_edge e None c))) pos
   \<and> getViewportStyle numstr (Some (OffsetObject (with_edge e (Some (Str [])) c))) pos =
     getViewportStyle numstr (Some (OffsetObject (with_edge e None c))) pos
   \<and> css_edge e (the (getViewportStyle numstr (Some (OffsetObject (with_edge e (Some (Num 0)) c))) pos)) = None
   \<and> css_edge e (the (getViewportStyle numstr (Some (OffsetObject (with_edge e (Some (Str [])) c))) pos)) = None
   \<and> getViewportStyle numstr (Some (OffsetValue (Num 0))) pos =
       Some \<lparr> css_top = None, css_bottom = None, css_left = None, css_right = None \<rparr>"
  by (cases e; cases pos)
    (simp_all add: getViewportStyle_def startsWith_def endsWith_def suffix_to_prefix Let_def)

lemma viewport_style_example:
  "getViewportStyle (\<lambda>n. if n = 16 then ''16'' else ''?'') (Some (OffsetValue (Num 16))) TopRight =
     Some \<lparr> css_top = Some ''16px'', css_bottom = None, css_left = None, css_right = Some ''16px'' \<rparr>"
  by (simp add: getViewportStyle_def startsWith_def endsWith_def suffix_to_prefix Let_def)

section \<open>Visual state machine: what the peripheral operations leave alone\<close>

lemma logic_state_fields:
  assumes "logic_state t = logic_state s"
  shows "props t = props s" "view t = view s" "applied t = applied s"
    "isExpanded t = isExpanded s" "lastRefreshKey t = lastRefreshKey s"
    "pendingView t = pendingView s" "frozenExpanded t = frozenExpanded s"
    "seenRefresh t = seenRefresh s" "seenAuto t = seenAuto s"
    "hasDesc t = hasDesc s" "isLoading t = isLoading s" "isOpen t = isOpen s"
    "allowExpand t = allowExpand s" "refresh_sources t = refresh_sources s"
    "auto_sources t = auto_sources s"
proof -
  from assms show f: "props t = props s" "view t = view s" "applied t = applied s"
    "isExpanded t = isExpanded s" "lastRefreshKey t = lastRefreshKey s"
    "pendingView t = pendingView s" "frozenExpanded t = frozenExpanded s"
    "seenRefresh t = seenRefresh s" "seenAuto t = seenAuto s"
    by (simp_all add: logic_state_def)
  show d: "hasDesc t = hasDesc s" "isLoading t = isLoading s"
    by (simp_all only: hasDesc_def isLoading_def f)
  show o: "isOpen t = isOpen s" "allowExpand t = allowExpand s"
    by (simp_all only: isOpen_def allowExpand_def f d)
  show "refresh_sources t = refresh_sources s" "auto_sources t = auto_sources s"
    by (simp_all only: refresh_sources_def auto_sources_def f d o)
qed

lemma logic_clearTimer [simp]: "logic_state (clearTimer t s) = logic_state s"
  by (simp add: clearTimer_def logic_state_def split: option.split)

lemma logic_setTimeout [simp]: "logic_state (snd (setTimeout cb d s)) = logic_state s"
  by (simp add: setTimeout_def logic_state_def)

lemma logic_requestAnimationFrame [simp]:
  "logic_state (snd (requestAnimationFrame cb s)) = logic_state s"
  by (simp add: requestAnimationFrame_def logic_state_def)

lemma logic_cancelAnimationFrame [simp]: "logic_state (cancelAnimationFrame h s) = logic_state s"
  by (simp add: cancelAnimationFrame_def logic_state_def)

lemma logic_measurePillWidth [simp]: "logic_state (measurePillWidth s) = logic_state s"
  by (simp add: measurePillWidth_def logic_state_def Let_def)

lemma logic_measureContentHeight [simp]: "logic_state (measureContentHeight s) = logic_state s"
  by (simp add: measureContentHeight_def logic_state_def)

lemma logic_update_peripheral [simp]:
  "logic_state (s\<lparr> pillRo := a \<rparr>) = logic_state s"
  "logic_state (s\<lparr> contentRo := a \<rparr>) = logic_state s"
  "logic_state (s\<lparr> pillRafId := h \<rparr>) = logic_state s"
  "logic_state (s\<lparr> contentRafId := h \<rparr>) = logic_state s"
  "logic_state (s\<lparr> contentHeight := n \<rparr>) = logic_state s"
  "logic_state (s\<lparr> swipeListening := b \<rparr>) = logic_state s"
  "logic_state (s\<lparr> domMounted := b \<rparr>) = logic_state s"
  "logic_state (s\<lparr> unmounted := b \<rparr>) = logic_state s"
  "logic_state (s\<lparr> dom_scrollWidth := n \<rparr>) = logic_state s"
  "logic_state (s\<lparr> dom_padding := n \<rparr>) = logic_state s"
  "logic_state (s\<lparr> dom_scrollHeight := n \<rparr>) = logic_state s"
  "logic_state (s\<lparr> headerExitTimer := t \<rparr>) = logic_state s"
  "logic_state (s\<lparr> autoExpandTimer := t \<rparr>) = logic_state s"
  "logic_state (s\<lparr> autoCollapseTimer := t \<rparr>) = logic_state s"
  "logic_state (s\<lparr> swapTimer := t \<rparr>) = logic_state s"
  "logic_state (s\<lparr> headerPrev := hp \<rparr>) = logic_state s"
  "logic_state (s\<lparr> headerCurrent := hc \<rparr>) = logic_state s"
  "logic_state (s\<lparr> seenHeaderPrev := hp \<rparr>) = logic_state s"
  "logic_state (s\<lparr> seenHeaderKey := hk \<rparr>) = logic_state s"
  "logic_state (s\<lparr> seenHasDesc := b \<rparr>) = logic_state s"
  "logic_state (s\<lparr> pointerStartY := y \<rparr>) = logic_state s"
  "logic_state (s\<lparr> transform := y \<rparr>) = logic_state s"
  "logic_state (s\<lparr> dismissCalls := c \<rparr>) = logic_state s"
  "logic_state (s\<lparr> ready := b \<rparr>) = logic_state s"
  "logic_state (s\<lparr> timeouts := ts \<rparr>) = logic_state s"
  "logic_state (s\<lparr> frames := fs \<rparr>) = logic_state s"
  by (simp_all add: logic_state_def)

lemma hasDesc_update_peripheral [simp]:
  "hasDesc (s\<lparr> frames := fs \<rparr>) = hasDesc s"
  "hasDesc (s\<lparr> contentRo := a \<rparr>) = hasDesc s"
  "hasDesc (s\<lparr> seenHasDesc := b \<rparr>) = hasDesc s"
  by (simp_all add: hasDesc_def)

lemma logic_setupPillObserver [simp]: "logic_state (setupPillObserver s) = logic_state s"
  by (simp add: setupPillObserver_def Let_def)

lemma logic_setupContentObserver [simp]: "logic_state (setupContentObserver s) = logic_state s"
  by (simp add: setupContentObserver_def Let_def)

lemma logic_header_exit_cb [simp]: "logic_state (header_exit_cb s) = logic_state s"
  by (simp add: header_exit_cb_def logic_state_def)

lemma logic_header_prev_cb [simp]: "logic_state (header_prev_cb s) = logic_state s"
  by (simp add: header_prev_cb_def Let_def setTimeout_def clearTimer_def logic_state_def
      split: option.split)

lemma logic_handlePointerDown [simp]: "logic_state (handlePointerDown y b s) = logic_state s"
  by (simp add: handlePointerDown_def)

lemma logic_onMove [simp]: "logic_state (onMove y s) = logic_state s"
  by (simp add: onMove_def split: option.split)

lemma logic_onUp [simp]: "logic_state (onUp y s) = logic_state s"
  by (simp add: onUp_def Let_def logic_state_def split: option.split)

lemma logic_frame_fires [simp]: "logic_state (frame_fires h s) = logic_state s"
  by (simp add: frame_fires_def Let_def split: option.split prod.split frame_cb.split)

lemma logic_pill_resized [simp]: "logic_state (pill_resized w pd s) = logic_state s"
  by (simp add: pill_resized_def Let_def requestAnimationFrame_def cancelAnimationFrame_def
      logic_state_def)

lemma logic_content_resized [simp]: "logic_state (content_resized h s) = logic_state s"
  by (simp add: content_resized_def Let_def requestAnimationFrame_def cancelAnimationFrame_def
      logic_state_def)

lemma logic_onMounted [simp]: "logic_state (sileo_onMounted w pd sh s) = logic_state s"
  by (simp add: sileo_onMounted_def Let_def requestAnimationFrame_def logic_state_def
      logic_setupPillObserver [unfolded logic_state_def]
      logic_setupContentObserver [unfolded logic_state_def])

lemma logic_onUnmounted [simp]: "logic_state (sileo_onUnmounted s) = logic_state s"
  by (simp add: sileo_onUnmounted_def Let_def)

lemma logic_sync_header [simp]:
  "logic_state (sync_header s) = logic_state s"
  by (simp add: sync_header_def)

section \<open>Visual state machine: content swap\<close>

lemma set_view_fields [simp]:
  "view (set_view v s) = v" "props (set_view v s) = props s"
  "applied (set_view v s) = applied s" "isExpanded (set_view v s) = isExpanded s"
  "lastRefreshKey (set_view v s) = lastRefreshKey s"
  "pendingView (set_view v s) = pendingView s"
  "frozenExpanded (set_view v s) = frozenExpanded s"
  "seenRefresh (set_view v s) = seenRefresh s" "seenAuto (set_view v s) = seenAuto s"
  "timeouts (set_view v s) = timeouts s" "swapTimer (set_view v s) = swapTimer s"
  "autoExpandTimer (set_view v s) = autoExpandTimer s"
  "autoCollapseTimer (set_view v s) = autoCollapseTimer s"
  "headerExitTimer (set_view v s) = headerExitTimer s"
  "nextId (set_view v s) = nextId s" "unmounted (set_view v s) = unmounted s"
  by (simp_all add: set_view_def sync_header_def)

lemma apply_pending_None [simp]: "pendingView s = None \<Longrightarrow> apply_pending s = s"
  by (simp add: apply_pending_def)

lemma apply_pending_Some:
  assumes "pendingView s = Some (k, v)"
  shows "view (apply_pending s) = v" "applied (apply_pending s) = Some k"
    "pendingView (apply_pending s) = None" "props (apply_pending s) = props s"
    "isExpanded (apply_pending s) = isExpanded s"
    "lastRefreshKey (apply_pending s) = lastRefreshKey s"
    "frozenExpanded (apply_pending s) = frozenExpanded s"
    "seenRefresh (apply_pending s) = seenRefresh s" "seenAuto (apply_pending s) = seenAuto s"
    "timeouts (apply_pending s) = timeouts s" "swapTimer (apply_pending s) = swapTimer s"
    "autoExpandTimer (apply_pending s) = autoExpandTimer s"
    "autoCollapseTimer (apply_pending s) = autoCollapseTimer s"
    "nextId (apply_pending s) = nextId s" "unmounted (apply_pending s) = unmounted s"
  using assms by (simp_all add: apply_pending_def)

lemma apply_pending_keeps [simp]:
  "props (apply_pending s) = props s" "isExpanded (apply_pending s) = isExpanded s"
  "lastRefreshKey (apply_pending s) = lastRefreshKey s"
  "frozenExpanded (apply_pending s) = frozenExpanded s"
  "seenRefresh (apply_pending s) = seenRefresh s" "seenAuto (apply_pending s) = seenAuto s"
  "timeouts (apply_pending s) = timeouts s" "swapTimer (apply_pending s) = swapTimer s"
  "autoExpandTimer (apply_pending s) = autoExpandTimer s"
  "autoCollapseTimer (apply_pending s) = autoCollapseTimer s"
  "nextId (apply_pending s) = nextId s" "unmounted (apply_pending s) = unmounted s"
  by (cases "pendingView s"; simp add: apply_pending_def split: prod.split)+

lemma apply_pending_view_change:
  "view (apply_pending s) \<noteq> view s \<Longrightarrow> pendingView s \<noteq> None"
  by (cases "pendingView s") simp_all

text \<open>The refresh watcher's callback, branch by branch.\<close>

lemma refresh_cb_same_key [simp]:
  "lastRefreshKey s = Some k \<Longrightarrow> refresh_cb ov (Some k) nv s = s"
  by (simp add: refresh_cb_def)

lemma refresh_cb_open:
  assumes "lastRefreshKey s \<noteq> Some k"
  shows "view (refresh_cb True (Some k) nv s) = view s"
    and "pendingView (refresh_cb True (Some k) nv s) = Some (k, nv)"
    and "\<not> isExpanded (refresh_cb True (Some k) nv s)"
    and "applied (refresh_cb True (Some k) nv s) = applied s"
    and "lastRefreshKey (refresh_cb True (Some k) nv s) = Some k"
    and "swapTimer (refresh_cb True (Some k) nv s) = Some (nextId s)"
    and "timeouts (refresh_cb True (Some k) nv s) =
           timeouts (clearTimer (swapTimer s) s) @ [(nextId s, SWAP_COLLAPSE_MS, SwapContent)]"
    and "props (refresh_cb True (Some k) nv s) = props s"
    and "frozenExpanded (refresh_cb True (Some k) nv s) = frozenExpanded s"
    and "seenRefresh (refresh_cb True (Some k) nv s) = seenRefresh s"
    and "seenAuto (refresh_cb True (Some k) nv s) = seenAuto s"
  using assms
  by (simp_all add: refresh_cb_def Let_def setTimeout_def clearTimer_def split: option.split)

lemma refresh_cb_closed:
  assumes "lastRefreshKey s \<noteq> Some k"
  shows "view (refresh_cb False (Some k) nv s) = nv"
    and "pendingView (refresh_cb False (Some k) nv s) = None"
    and "isExpanded (refresh_cb False (Some k) nv s) = isExpanded s"
    and "applied (refresh_cb False (Some k) nv s) = Some k"
    and "lastRefreshKey (refresh_cb False (Some k) nv s) = Some k"
    and "props (refresh_cb False (Some k) nv s) = props s"
    and "frozenExpanded (refresh_cb False (Some k) nv s) = frozenExpanded s"
    and "seenRefresh (refresh_cb False (Some k) nv s) = seenRefresh s"
    and "seenAuto (refresh_cb False (Some k) nv s) = seenAuto s"
  using assms
  by (simp_all add: refresh_cb_def Let_def clearTimer_def split: option.split)

lemma refresh_cb_uncontrolled:
  shows "view (refresh_cb ov None nv s) = nv"
    and "pendingView (refresh_cb ov None nv s) = None"
    and "isExpanded (refresh_cb ov None nv s) = isExpanded s"
    and "applied (refresh_cb ov None nv s) = None"
    and "lastRefreshKey (refresh_cb ov None nv s) = None"
    and "props (refresh_cb ov None nv s) = props s"
    and "frozenExpanded (refresh_cb ov None nv s) = frozenExpanded s"
    and "seenRefresh (refresh_cb ov None nv s) = seenRefresh s"
    and "seenAuto (refresh_cb ov None nv s) = seenAuto s"
  by (simp_all add: refresh_cb_def)

lemma refresh_cb_keeps [simp]:
  "props (refresh_cb ov rk nv s) = props s"
  "frozenExpanded (refresh_cb ov rk nv s) = frozenExpanded s"
  "seenRefresh (refresh_cb ov rk nv s) = seenRefresh s"
  "seenAuto (refresh_cb ov rk nv s) = seenAuto s"
  "lastRefreshKey (refresh_cb ov rk nv s) = rk"
proof -
  consider "rk = None" | k where "rk = Some k" "lastRefreshKey s = Some k"
    | k where "rk = Some k" "lastRefreshKey s \<noteq> Some k" "ov"
    | k where "rk = Some k" "lastRefreshKey s \<noteq> Some k" "\<not> ov"
    by (cases rk) auto
  then show "props (refresh_cb ov rk nv s) = props s"
    "frozenExpanded (refresh_cb ov rk nv s) = frozenExpanded s"
    "seenRefresh (refresh_cb ov rk nv s) = seenRefresh s"
    "seenAuto (refresh_cb ov rk nv s) = seenAuto s"
    "lastRefreshKey (refresh_cb ov rk nv s) = rk"
    by (cases; simp add: refresh_cb_uncontrolled refresh_cb_open refresh_cb_closed)+
qed

lemma refresh_cb_view_change:
  "view (refresh_cb ov rk nv s) \<noteq> view s \<Longrightarrow> rk = None \<or> rk \<noteq> lastRefreshKey s"
  by (cases rk; cases "rk = lastRefreshKey s") auto

lemma auto_cb_logic [simp]:
  "view (auto_cb s) = view s" "props (auto_cb s) = props s" "applied (auto_cb s) = applied s"
  "lastRefreshKey (auto_cb s) = lastRefreshKey s" "pendingView (auto_cb s) = pendingView s"
  "frozenExpanded (auto_cb s) = frozenExpanded s" "seenRefresh (auto_cb s) = seenRefresh s"
  "seenAuto (auto_cb s) = seenAuto s" "swapTimer (auto_cb s) = swapTimer s"
  "unmounted (auto_cb s) = unmounted s"
  by (simp_all add: auto_cb_def Let_def setTimeout_def clearTimer_def
      split: option.split)

lemma handleEnter_fields [simp]:
  "view (handleEnter s) = view s" "props (handleEnter s) = props s"
  "applied (handleEnter s) = applied s" "lastRefreshKey (handleEnter s) = lastRefreshKey s"
  "pendingView (handleEnter s) = pendingView s"
  "frozenExpanded (handleEnter s) = frozenExpanded s"
  "seenRefresh (handleEnter s) = seenRefresh s" "seenAuto (handleEnter s) = seenAuto s"
  "timeouts (handleEnter s) = timeouts s" "unmounted (handleEnter s) = unmounted s"
  by (simp_all add: handleEnter_def)

lemma handleLeave_fields [simp]:
  "view (handleLeave s) = view s" "props (handleLeave s) = props s"
  "applied (handleLeave s) = applied s" "lastRefreshKey (handleLeave s) = lastRefreshKey s"
  "pendingView (handleLeave s) = pendingView s"
  "frozenExpanded (handleLeave s) = frozenExpanded s"
  "seenRefresh (handleLeave s) = seenRefresh s" "seenAuto (handleLeave s) = seenAuto s"
  "timeouts (handleLeave s) = timeouts s" "unmounted (handleLeave s) = unmounted s"
  by (simp_all add: handleLeave_def)

lemma clearTimer_fields [simp]:
  "view (clearTimer t s) = view s" "props (clearTimer t s) = props s"
  "applied (clearTimer t s) = applied s" "isExpanded (clearTimer t s) = isExpanded s"
  "lastRefreshKey (clearTimer t s) = lastRefreshKey s"
  "pendingView (clearTimer t s) = pendingView s"
  "frozenExpanded (clearTimer t s) = frozenExpanded s"
  "seenRefresh (clearTimer t s) = seenRefresh s" "seenAuto (clearTimer t s) = seenAuto s"
  "swapTimer (clearTimer t s) = swapTimer s" "unmounted (clearTimer t s) = unmounted s"
  "isOpen (clearTimer t s) = isOpen s" "hasDesc (clearTimer t s) = hasDesc s"
  by (simp_all add: logic_state_fields [OF logic_clearTimer])
    (simp_all add: clearTimer_def split: option.split)

lemma handleTransitionEnd_keeps [simp]:
  "props (handleTransitionEnd pn s) = props s"
  "isExpanded (handleTransitionEnd pn s) = isExpanded s"
  "lastRefreshKey (handleTransitionEnd pn s) = lastRefreshKey s"
  "frozenExpanded (handleTransitionEnd pn s) = frozenExpanded s"
  "seenRefresh (handleTransitionEnd pn s) = seenRefresh s"
  "seenAuto (handleTransitionEnd pn s) = seenAuto s"
  "unmounted (handleTransitionEnd pn s) = unmounted s"
  by (simp_all add: handleTransitionEnd_def Let_def)

lemma handleTransitionEnd_applies:
  assumes "pn = ''height'' \<or> pn = ''transform''" and "\<not> isOpen s"
    and "pendingView s = Some (k, v)"
  shows "view (handleTransitionEnd pn s) = v" "applied (handleTransitionEnd pn s) = Some k"
    "pendingView (handleTransitionEnd pn s) = None"
    "swapTimer (handleTransitionEnd pn s) = None"
  using assms by (auto simp: handleTransitionEnd_def Let_def apply_pending_Some)

lemma handleTransitionEnd_view_change:
  assumes "view (handleTransitionEnd pn s) \<noteq> view s"
  shows "pendingView s \<noteq> None \<and> (pn = ''height'' \<or> pn = ''transform'') \<and> \<not> isOpen s"
proof -
  have "handleTransitionEnd pn s \<noteq> s" using assms by auto
  then show ?thesis
    by (auto simp: handleTransitionEnd_def split: if_splits)
qed

lemma swap_cb_keeps [simp]:
  "props (swap_cb s) = props s" "isExpanded (swap_cb s) = isExpanded s"
  "lastRefreshKey (swap_cb s) = lastRefreshKey s"
  "frozenExpanded (swap_cb s) = frozenExpanded s"
  "seenRefresh (swap_cb s) = seenRefresh s" "seenAuto (swap_cb s) = seenAuto s"
  "timeouts (swap_cb s) = timeouts s" "unmounted (swap_cb s) = unmounted s"
  by (simp_all add: swap_cb_def)

lemma swap_cb_applies:
  assumes "pendingView s = Some (k, v)"
  shows "view (swap_cb s) = v" "applied (swap_cb s) = Some k" "pendingView (swap_cb s) = None"
  using assms by (simp_all add: swap_cb_def apply_pending_Some)

lemma swap_cb_view_change: "view (swap_cb s) \<noteq> view s \<Longrightarrow> pendingView s \<noteq> None"
  using apply_pending_view_change [of "s\<lparr> swapTimer := None \<rparr>"]
  by (simp add: swap_cb_def)

lemma header_exit_cb_fields [simp]:
  "view (header_exit_cb s) = view s" "props (header_exit_cb s) = props s"
  "frozenExpanded (header_exit_cb s) = frozenExpanded s"
  "pendingView (header_exit_cb s) = pendingView s"
  "unmounted (header_exit_cb s) = unmounted s"
  by (simp_all add: header_exit_cb_def)

text \<open>A timeout that fires, by the callback it was registered with.\<close>

lemma timeout_fires_cases:
  obtains "find (\<lambda>x. fst x = h) (timeouts s) = None" "timeout_fires h s = s"
  | d where "find (\<lambda>x. fst x = h) (timeouts s) = Some (h, d, HeaderExit)"
      "timeout_fires h s = header_exit_cb (s\<lparr> timeouts := filter (\<lambda>e. fst e \<noteq> h) (timeouts s) \<rparr>)"
  | d where "find (\<lambda>x. fst x = h) (timeouts s) = Some (h, d, AutoExpand)"
      "timeout_fires h s =
         s\<lparr> timeouts := filter (\<lambda>e. fst e \<noteq> h) (timeouts s), isExpanded := True \<rparr>"
  | d where "find (\<lambda>x. fst x = h) (timeouts s) = Some (h, d, AutoCollapse)"
      "timeout_fires h s =
         s\<lparr> timeouts := filter (\<lambda>e. fst e \<noteq> h) (timeouts s), isExpanded := False \<rparr>"
  | d where "find (\<lambda>x. fst x = h) (timeouts s) = Some (h, d, SwapContent)"
      "timeout_fires h s = swap_cb (s\<lparr> timeouts := filter (\<lambda>e. fst e \<noteq> h) (timeouts s) \<rparr>)"
proof (cases "find (\<lambda>x. fst x = h) (timeouts s)")
  case None
  then show ?thesis using that(1) by (simp add: timeout_fires_def)
next
  case (Some x)
  obtain h' d cb where x: "x = (h', d, cb)" by (cases x)
  from Some have "fst x = h" by (auto simp: find_Some_iff)
  with x have h': "h' = h" by simp
  show ?thesis
    using Some that(2-5) unfolding x h'
    by (cases cb) (simp_all add: timeout_fires_def)
qed

lemma swap_signal_timeout:
  assumes "swap_signal s (Timeout h)"
  obtains d where "find (\<lambda>x. fst x = h) (timeouts s) = Some (h, d, SwapContent)"
proof (rule timeout_fires_cases [of h s])
  fix d
  assume "find (\<lambda>x. fst x = h) (timeouts s) = Some (h, d, SwapContent)"
  then show thesis by (rule that)
qed (use assms in \<open>simp_all add: swap_signal_def\<close>)

lemma timeout_fires_keeps [simp]:
  "props (timeout_fires h s) = props s"
  "frozenExpanded (timeout_fires h s) = frozenExpanded s"
  "lastRefreshKey (timeout_fires h s) = lastRefreshKey s"
  "seenRefresh (timeout_fires h s) = seenRefresh s"
  "seenAuto (timeout_fires h s) = seenAuto s"
  "unmounted (timeout_fires h s) = unmounted s"
  by (rule timeout_fires_cases [of h s]; simp add: header_exit_cb_def)+

lemma timeout_fires_view_change:
  assumes "view (timeout_fires h s) \<noteq> view s"
  shows "pendingView s \<noteq> None \<and> swap_signal s (Timeout h)"
proof (rule timeout_fires_cases [of h s])
  fix d
  assume f: "find (\<lambda>x. fst x = h) (timeouts s) = Some (h, d, SwapContent)"
    and e: "timeout_fires h s = swap_cb (s\<lparr> timeouts := filter (\<lambda>e. fst e \<noteq> h) (timeouts s) \<rparr>)"
  from assms e have "pendingView s \<noteq> None"
    using swap_cb_view_change [of "s\<lparr> timeouts := filter (\<lambda>e. fst e \<noteq> h) (timeouts s) \<rparr>"]
    by simp
  with f show ?thesis by (simp add: swap_signal_def)
qed (use assms in simp_all)

lemma handle_event_view_change:
  assumes "view (handle_event e s) \<noteq> view s"
  shows "pendingView s \<noteq> None \<and> swap_signal s e"
proof (cases e)
  case (TransitionEnd pn)
  with assms show ?thesis
    using handleTransitionEnd_view_change [of pn s] by (simp add: swap_signal_def)
next
  case (Timeout h)
  with assms show ?thesis using timeout_fires_view_change [of h s] by simp
qed (use assms in \<open>simp_all add: logic_state_fields [OF logic_onMounted]
      logic_state_fields [OF logic_handlePointerDown] logic_state_fields [OF logic_onMove]
      logic_state_fields [OF logic_onUp] logic_state_fields [OF logic_frame_fires]
      logic_state_fields [OF logic_pill_resized] logic_state_fields [OF logic_content_resized]
      logic_state_fields [OF logic_onUnmounted]\<close>)

lemma handle_event_frozen [simp]: "frozenExpanded (handle_event e s) = frozenExpanded s"
  by (cases e)
    (simp_all add: logic_state_fields [OF logic_onMounted]
      logic_state_fields [OF logic_handlePointerDown] logic_state_fields [OF logic_onMove]
      logic_state_fields [OF logic_onUp] logic_state_fields [OF logic_frame_fires]
      logic_state_fields [OF logic_pill_resized] logic_state_fields [OF logic_content_resized]
      logic_state_fields [OF logic_onUnmounted])

lemma handle_event_refresh_seen [simp]:
  "seenRefresh (handle_event e s) = seenRefresh s"
  "lastRefreshKey (handle_event e s) = lastRefreshKey s"
  by (cases e;
    simp add: logic_state_fields [OF logic_onMounted]
      logic_state_fields [OF logic_handlePointerDown] logic_state_fields [OF logic_onMove]
      logic_state_fields [OF logic_onUp] logic_state_fields [OF logic_frame_fires]
      logic_state_fields [OF logic_pill_resized] logic_state_fields [OF logic_content_resized]
      logic_state_fields [OF logic_onUnmounted])+

lemma run_watcher_peripheral:
  assumes "w \<noteq> RefreshWatcher" and "w \<noteq> AutoWatcher"
  shows "logic_state (run_watcher w s) = logic_state s"
  using assms by (cases w) simp_all

lemma run_watcher_frozen [simp]: "frozenExpanded (run_watcher w s) = frozenExpanded s"
  by (cases w) (simp_all add: logic_state_fields [OF logic_setupPillObserver]
      logic_state_fields [OF logic_setupContentObserver]
      logic_state_fields [OF logic_header_prev_cb])

lemma fold_watchers_frozen [simp]: "frozenExpanded (fold run_watcher ws s) = frozenExpanded s"
  by (induction ws arbitrary: s) simp_all

lemma run_watcher_view_change:
  assumes "view (run_watcher w s) \<noteq> view s"
  shows "w = RefreshWatcher \<and>
    (p_refreshKey (props s) = None \<or> p_refreshKey (props s) \<noteq> lastRefreshKey s)"
proof (cases w)
  case RefreshWatcher
  with assms have "view (refresh_cb (isOpen s) (p_refreshKey (props s)) (next_view (props s))
      (s\<lparr> seenRefresh := refresh_sources s \<rparr>)) \<noteq> view (s\<lparr> seenRefresh := refresh_sources s \<rparr>)"
    by (simp split: if_splits)
  from refresh_cb_view_change [OF this] RefreshWatcher show ?thesis by simp
qed (use assms in \<open>simp_all add: logic_state_fields [OF logic_setupPillObserver]
      logic_state_fields [OF logic_setupContentObserver]
      logic_state_fields [OF logic_header_prev_cb] split: if_splits\<close>)

lemma run_watcher_key_seen: "refresh_key_seen s \<Longrightarrow> refresh_key_seen (run_watcher w s)"
  by (cases w)
    (simp_all add: refresh_key_seen_def refresh_sources_def
      logic_state_fields [OF logic_setupPillObserver]
      logic_state_fields [OF logic_setupContentObserver]
      logic_state_fields [OF logic_header_prev_cb])

lemma fold_watchers_key_seen:
  "refresh_key_seen s \<Longrightarrow> refresh_key_seen (fold run_watcher ws s)"
  by (induction ws arbitrary: s) (simp_all add: run_watcher_key_seen)

lemma render_fields [simp]:
  "view (render s) = view s" "seenRefresh (render s) = seenRefresh s"
  "lastRefreshKey (render s) = lastRefreshKey s" "props (render s) = props s"
  "isExpanded (render s) = isExpanded s" "pendingView (render s) = pendingView s"
  "applied (render s) = applied s" "timeouts (render s) = timeouts s"
  "seenAuto (render s) = seenAuto s" "unmounted (render s) = unmounted s"
  by (simp_all add: render_def expanded_def)

lemma sileo_step_key_seen: "refresh_key_seen s \<Longrightarrow> refresh_key_seen (sileo_step ev s)"
proof -
  assume a: "refresh_key_seen s"
  then have h: "refresh_key_seen (handle_event (fst ev) s)"
    by (simp add: refresh_key_seen_def)
  from fold_watchers_key_seen [OF h, of "snd ev"] h show ?thesis
    by (simp add: sileo_step_def Let_def refresh_key_seen_def)
qed

lemma sileo_run_key_seen: "refresh_key_seen s \<Longrightarrow> refresh_key_seen (sileo_run evs s)"
  unfolding sileo_run_def by (induction evs arbitrary: s) (simp_all add: sileo_step_key_seen)

lemma sileo_setup_key_seen: "refresh_key_seen (sileo_setup p)"
  by (simp add: sileo_setup_def Let_def refresh_key_seen_def refresh_sources_def)

lemma refresh_watcher_runs_on_new_key:
  assumes "refresh_key_seen s" and "p_refreshKey (props s) = Some k"
    and "lastRefreshKey s \<noteq> Some k"
  shows "run_watcher RefreshWatcher s =
    refresh_cb (isOpen s) (Some k) (next_view (props s)) (s\<lparr> seenRefresh := refresh_sources s \<rparr>)"
proof -
  have "fst (snd (refresh_sources s)) = Some k"
    using assms(2) by (simp add: refresh_sources_def)
  moreover have "fst (snd (seenRefresh s)) \<noteq> Some k"
    using assms(1,3) by (simp add: refresh_key_seen_def)
  ultimately have "refresh_sources s \<noteq> seenRefresh s" by auto
  then show ?thesis using assms(2) by simp
qed

text \<open>
  What the refresh logic does in every state an instance can reach: when the refresh
  watcher runs on a new (defined) refresh key while the card is open, the view is left as
  it is, the new content is kept as the pending view, the card is collapsed and the swap
  timer is set to the fixed \<open>SWAP_COLLAPSE_MS\<close>; when it runs while the card is not open, the
  new content becomes the view at once. No event handler changes the view except on a
  swap signal with a view pending, and such a signal makes exactly the pending content
  the view; no watcher changes the view except the refresh watcher on a changed key (or
  without a key, where the component follows its props); rendering never does. A swap
  signal is a transition of \<open>height\<close> or \<open>transform\<close> that ends while the card is not open,
  or the swap timer firing, whatever the card's state then is.
\<close>

lemma refresh_defers_swap_to_signal:
  assumes "s = sileo_run evs (sileo_setup p0)"
  shows
    "(p_refreshKey (props s) = Some k \<and> lastRefreshKey s \<noteq> Some k \<longrightarrow>
        (isOpen s \<longrightarrow>
           view (run_watcher RefreshWatcher s) = view s \<and>
           pendingView (run_watcher RefreshWatcher s) = Some (k, next_view (props s)) \<and>
           \<not> isExpanded (run_watcher RefreshWatcher s) \<and>
           (\<exists>h. swapTimer (run_watcher RefreshWatcher s) = Some h \<and>
                (h, SWAP_COLLAPSE_MS, SwapContent) \<in> set (timeouts (run_watcher RefreshWatcher s)))) \<and>
        (\<not> isOpen s \<longrightarrow>
           view (run_watcher RefreshWatcher s) = next_view (props s) \<and>
           applied (run_watcher RefreshWatcher s) = Some k \<and>
           pendingView (run_watcher RefreshWatcher s) = None)) \<and>
     (view (handle_event e s) \<noteq> view s \<longrightarrow> pendingView s \<noteq> None \<and> swap_signal s e) \<and>
     (pendingView s = Some (k', v) \<and> swap_signal s e \<longrightarrow>
        view (handle_event e s) = v \<and> applied (handle_event e s) = Some k' \<and>
        pendingView (handle_event e s) = None) \<and>
     (view (run_watcher w s) \<noteq> view s \<longrightarrow>
        w = RefreshWatcher \<and>
        (p_refreshKey (props s) = None \<or> p_refreshKey (props s) \<noteq> lastRefreshKey s)) \<and>
     view (render s) = view s"
proof (intro conjI impI)
  have ks: "refresh_key_seen s"
    unfolding assms by (rule sileo_run_key_seen [OF sileo_setup_key_seen])
  {
    assume a: "p_refreshKey (props s) = Some k \<and> lastRefreshKey s \<noteq> Some k"
    let ?t = "s\<lparr> seenRefresh := refresh_sources s \<rparr>"
    have r: "run_watcher RefreshWatcher s = refresh_cb (isOpen s) (Some k) (next_view (props s)) ?t"
      using refresh_watcher_runs_on_new_key [OF ks] a by simp
    have l: "lastRefreshKey ?t \<noteq> Some k" using a by simp
    {
      assume o: "isOpen s"
      show "view (run_watcher RefreshWatcher s) = view s"
        "pendingView (run_watcher RefreshWatcher s) = Some (k, next_view (props s))"
        "\<not> isExpanded (run_watcher RefreshWatcher s)"
        unfolding r using o refresh_cb_open [OF l] by simp_all
      show "\<exists>h. swapTimer (run_watcher RefreshWatcher s) = Some h \<and>
          (h, SWAP_COLLAPSE_MS, SwapContent) \<in> set (timeouts (run_watcher RefreshWatcher s))"
        unfolding r using o refresh_cb_open(6,7) [OF l] by simp
    }
    {
      assume o: "\<not> isOpen s"
      show "view (run_watcher RefreshWatcher s) = next_view (props s)"
        "applied (run_watcher RefreshWatcher s) = Some k"
        "pendingView (run_watcher RefreshWatcher s) = None"
        unfolding r using o refresh_cb_closed [OF l] by simp_all
    }
  }
  {
    assume "view (handle_event e s) \<noteq> view s"
    from handle_event_view_change [OF this]
    show "pendingView s \<noteq> None" "swap_signal s e" by simp_all
  }
  {
    assume a: "pendingView s = Some (k', v) \<and> swap_signal s e"
    have "view (handle_event e s) = v \<and> applied (handle_event e s) = Some k' \<and>
      pendingView (handle_event e s) = None"
    proof (cases e)
      case (TransitionEnd pn)
      with a show ?thesis
        using handleTransitionEnd_applies [of pn s k' v] by (simp add: swap_signal_def)
    next
      case (Timeout h)
      with a obtain d where f: "find (\<lambda>x. fst x = h) (timeouts s) = Some (h, d, SwapContent)"
        using swap_signal_timeout [of s h] by auto
      then have "timeout_fires h s =
          swap_cb (s\<lparr> timeouts := filter (\<lambda>e. fst e \<noteq> h) (timeouts s) \<rparr>)"
        by (simp add: timeout_fires_def)
      with a Timeout show ?thesis
        using swap_cb_applies [of "s\<lparr> timeouts := filter (\<lambda>e. fst e \<noteq> h) (timeouts s) \<rparr>" k' v]
        by simp
    qed (use a in \<open>simp_all add: swap_signal_def\<close>)
    then show "view (handle_event e s) = v" "applied (handle_event e s) = Some k'"
      "pendingView (handle_event e s) = None" by simp_all
  }
  {
    assume "view (run_watcher w s) \<noteq> view s"
    from run_watcher_view_change [OF this]
    show "w = RefreshWatcher"
      "p_refreshKey (props s) = None \<or> p_refreshKey (props s) \<noteq> lastRefreshKey s"
      by simp_all
  }
  show "view (render s) = view s" by simp
qed

lemma refresh_defers_swap_to_signal_example:
  "isOpen example_swap_open \<and>
   p_refreshKey (props example_swap_open) = Some ''i2'' \<and>
   lastRefreshKey example_swap_open \<noteq> Some ''i2'' \<and>
   view (run_watcher RefreshWatcher example_swap_open) = view example_swap_open \<and>
   v_title (view example_swap_open) = Some ''Saved'' \<and>
   pendingView (run_watcher RefreshWatcher example_swap_open) =
     Some (''i2'', next_view example_props2) \<and>
   pendingView example_swap_pending = Some (''i2'', next_view example_props2) \<and>
   swap_signal example_swap_pending (TransitionEnd ''height'') \<and>
   view (handle_event (TransitionEnd ''height'') example_swap_pending) =
     next_view example_props2 \<and>
   \<not> isOpen example_swap_closed \<and>
   p_refreshKey (props example_swap_closed) = Some ''i2'' \<and>
   lastRefreshKey example_swap_closed \<noteq> Some ''i2'' \<and>
   view (run_watcher RefreshWatcher example_swap_closed) = next_view example_props2"
proof -
  have o: "isOpen example_swap_open" by code_simp
  have k: "p_refreshKey (props example_swap_open) = Some ''i2''" by code_simp
  have l: "lastRefreshKey example_swap_open \<noteq> Some ''i2''" by code_simp
  have p: "props example_swap_open = example_props2" by code_simp
  have t: "v_title (view example_swap_open) = Some ''Saved''" by code_simp
  have pp: "pendingView example_swap_pending = Some (''i2'', next_view example_props2)"
    by code_simp
  have sg: "swap_signal example_swap_pending (TransitionEnd ''height'')" by code_simp
  have c: "\<not> isOpen example_swap_closed" by code_simp
  have ck: "p_refreshKey (props example_swap_closed) = Some ''i2''" by code_simp
  have cl: "lastRefreshKey example_swap_closed \<noteq> Some ''i2''" by code_simp
  have cp: "props example_swap_closed = example_props2" by code_simp
  note a = refresh_defers_swap_to_signal
    [OF example_swap_open_def, of "''i2''" Enter "''''" undefined RefreshWatcher]
  note b = refresh_defers_swap_to_signal
    [OF example_swap_pending_def, of "''''" "TransitionEnd ''height''" "''i2''"
      "next_view example_props2" RefreshWatcher]
  note d = refresh_defers_swap_to_signal
    [OF example_swap_closed_def, of "''i2''" Enter "''''" undefined RefreshWatcher]
  show ?thesis
    using a b d o k l p t pp sg c ck cl cp by simp
qed

text \<open>
  Claim C5. The content of an open card does change before any collapse has completed.
  The swap timer's callback puts the pending content in place without looking at the
  card (\<open>handleTransitionEnd\<close> returns when the card is open, the timer's callback has no
  such test), and \<open>handleEnter\<close> opens the card again while a swap is pending. In the run
  \<open>example_swap_reopened\<close> the card is open, it shows the old content (title \<open>Saved\<close>) and
  the new content is pending with the swap timer set; the end of a \<open>height\<close> transition
  is ignored, as the card is open; when the swap timer fires, the card is open before
  and after, and the view and the header layer (from which title and icon are rendered)
  show the new content (title \<open>Done\<close>).
\<close>

theorem swap_timer_replaces_content_of_open_card:
  "isOpen example_swap_reopened \<and>
   v_title (view example_swap_reopened) = Some ''Saved'' \<and>
   v_title (snd (headerCurrent example_swap_reopened)) = Some ''Saved'' \<and>
   pendingView example_swap_reopened = Some (''i2'', next_view example_props2) \<and>
   swapTimer example_swap_reopened = Some 2 \<and>
   timeouts example_swap_reopened = [(2, SWAP_COLLAPSE_MS, SwapContent)] \<and>
   view (sileo_step (TransitionEnd ''height'', []) example_swap_reopened) =
     view example_swap_reopened \<and>
   isOpen (handle_event (Timeout 2) example_swap_reopened) \<and>
   view (handle_event (Timeout 2) example_swap_reopened) = next_view example_props2 \<and>
   isOpen example_swap_fired \<and>
   quiescent example_swap_fired \<and>
   view example_swap_fired = next_view example_props2 \<and>
   v_title (view example_swap_fired) = Some ''Done'' \<and>
   v_title (snd (headerCurrent example_swap_fired)) = Some ''Done''"
  by code_simp

section \<open>Visual state machine: geometry and swipe\<close>

lemma step_frozen:
  assumes no: "\<not> isOpen (sileo_step ev s)"
  shows "frozenExpanded (sileo_step ev s) = frozenExpanded s"
proof -
  let ?s1 = "handle_event (fst ev) s"
  let ?s2 = "fold run_watcher (snd ev) ?s1"
  show ?thesis
  proof (cases "unmounted ?s1")
    case True
    then show ?thesis by (simp add: sileo_step_def)
  next
    case False
    then have eq: "sileo_step ev s = render ?s2" by (simp add: sileo_step_def)
    have "isOpen (render ?s2) = isOpen ?s2"
      by (simp add: render_def expanded_def isOpen_def hasDesc_def isLoading_def)
    with no eq have "\<not> isOpen ?s2" by simp
    then have "render ?s2 = ?s2" by (simp add: render_def expanded_def)
    with eq show ?thesis by simp
  qed
qed

text \<open>
  Claim C8. While the card is open, the expanded height is
  \<open>max minExpanded (HEIGHT + contentHeight)\<close>, the minimum being the collapsed height times
  the fixed ratio, and the evaluation stores that value in \<open>frozenExpanded\<close>. While the
  card is not open the value is \<open>frozenExpanded\<close> and the evaluation changes nothing;
  \<open>frozenExpanded\<close> starts at the minimum, and no step that ends with the card not open
  changes it, whatever the event (a new measurement of the content included).
\<close>

theorem expanded_height_tracks_open_and_freezes:
  "(isOpen s \<longrightarrow>
      fst (expanded s) = max minExpanded (HEIGHT + contentHeight s) \<and>
      frozenExpanded (snd (expanded s)) = fst (expanded s)) \<and>
   (\<not> isOpen s \<longrightarrow> fst (expanded s) = frozenExpanded s \<and> snd (expanded s) = s) \<and>
   minExpanded = MIN_EXPAND_RATIO * HEIGHT \<and>
   frozenExpanded (sileo_setup p) = minExpanded \<and>
   (\<not> isOpen (sileo_step ev s) \<longrightarrow>
      frozenExpanded (sileo_step ev s) = frozenExpanded s \<and>
      fst (expanded (sileo_step ev s)) = frozenExpanded s)"
proof (intro conjI impI)
  assume "isOpen s"
  then show "fst (expanded s) = max minExpanded (HEIGHT + contentHeight s)"
    by (simp add: expanded_def rawExpanded_def isOpen_def)
next
  assume "isOpen s"
  then show "frozenExpanded (snd (expanded s)) = fst (expanded s)"
    by (simp add: expanded_def)
next
  assume "\<not> isOpen s"
  then show "fst (expanded s) = frozenExpanded s" "snd (expanded s) = s"
    by (simp_all add: expanded_def)
next
  show "minExpanded = MIN_EXPAND_RATIO * HEIGHT" by (simp add: minExpanded_def)
next
  show "frozenExpanded (sileo_setup p) = minExpanded"
    by (simp add: sileo_setup_def minExpanded_def Let_def)
next
  assume no: "\<not> isOpen (sileo_step ev s)"
  then show "frozenExpanded (sileo_step ev s) = frozenExpanded s" by (rule step_frozen)
  with no show "fst (expanded (sileo_step ev s)) = frozenExpanded s"
    by (simp add: expanded_def)
qed

theorem expanded_height_tracks_open_and_freezes_witness:
  "isOpen example_open \<and> contentHeight example_open = 60 \<and>
   fst (expanded example_open) = 100 \<and>
   \<not> isOpen (sileo_step (Leave, []) example_open) \<and>
   frozenExpanded (sileo_step (Leave, []) example_open) = 100 \<and>
   fst (expanded (sileo_step (Leave, []) example_open)) = 100"
proof -
  have o: "isOpen example_open" by code_simp
  have c: "contentHeight example_open = 60" by code_simp
  have f: "frozenExpanded example_open = 100" by code_simp
  have m: "max minExpanded (HEIGHT + 60) = 100"
    by (simp add: minExpanded_def HEIGHT_def MIN_EXPAND_RATIO_def)
  have n: "\<not> isOpen (sileo_step (Leave, []) example_open)" by code_simp
  show ?thesis
    using expanded_height_tracks_open_and_freezes [of example_open example_props "(Leave, [])"]
      o c f m n
    by simp
qed

lemma swipe_clamped_bounds:
  "\<bar>swipe_clamped dy\<bar> \<le> SWIPE_MAX \<and> SWIPE_MAX < SWIPE_DISMISS \<and>
   (0 < dy \<longrightarrow> 0 < swipe_clamped dy) \<and> (dy < 0 \<longrightarrow> swipe_clamped dy < 0) \<and>
   (\<bar>dy\<bar> \<le> SWIPE_MAX \<longrightarrow> swipe_clamped dy = dy)"
  by (auto simp: swipe_clamped_def SWIPE_MAX_def SWIPE_DISMISS_def min_def abs_if)

text \<open>
  A drag only starts where the toast is not exiting, has a dismiss handler and the
  pointer did not go down on the action button.
\<close>

lemma pointer_down_starts_drag:
  "pointerStartY s = None \<Longrightarrow>
   pointerStartY (handlePointerDown y0 onButton s) \<noteq> None \<longleftrightarrow>
     (\<not> p_exiting (props s) \<and> p_onDismiss (props s) \<and> \<not> onButton)"
  by (simp add: handlePointerDown_def)

text \<open>
  Claim C9. During a drag that began at \<open>y0\<close>, a move to \<open>y\<close> sets a vertical
  translation \<open>c\<close> with \<open>\<bar>c\<bar> \<le> SWIPE_MAX\<close>, where \<open>SWIPE_MAX < SWIPE_DISMISS\<close>, of the drag's
  direction, and equal to the raw displacement while that is within the maximum; a move
  never dismisses. The release at \<open>y\<close> calls the dismiss handler if and only if the raw
  displacement \<open>\<bar>y - y0\<bar>\<close> exceeds \<open>SWIPE_DISMISS\<close>; in every case it ends the drag and
  removes the translation, and below the threshold that is all it does.
\<close>

theorem swipe_clamps_and_dismisses_past_threshold:
  assumes "pointerStartY s = Some y0" and "p_onDismiss (props s)"
  shows "(\<exists>c. transform (onMove y s) = Some c \<and> \<bar>c\<bar> \<le> SWIPE_MAX \<and> SWIPE_MAX < SWIPE_DISMISS \<and>
            (y0 < y \<longrightarrow> 0 < c) \<and> (y < y0 \<longrightarrow> c < 0) \<and> (\<bar>y - y0\<bar> \<le> SWIPE_MAX \<longrightarrow> c = y - y0)) \<and>
         dismissCalls (onMove y s) = dismissCalls s \<and>
         (dismissCalls (onUp y s) = Suc (dismissCalls s) \<longleftrightarrow> SWIPE_DISMISS < \<bar>y - y0\<bar>) \<and>
         (\<not> SWIPE_DISMISS < \<bar>y - y0\<bar> \<longrightarrow>
            onUp y s = s\<lparr> pointerStartY := None, transform := None \<rparr>) \<and>
         pointerStartY (onUp y s) = None \<and> transform (onUp y s) = None"
  using assms swipe_clamped_bounds [of "y - y0"]
  by (auto simp: onMove_def onUp_def Let_def)

theorem swipe_clamps_and_dismisses_past_threshold_witness:
  "pointerStartY example_dragging = Some 100 \<and> p_onDismiss (props example_dragging) \<and>
   transform (onMove 150 example_dragging) = Some 20 \<and>
   dismissCalls (onUp 150 example_dragging) = Suc (dismissCalls example_dragging) \<and>
   SWIPE_DISMISS < \<bar>150 - 100\<bar>"
proof -
  have a: "pointerStartY example_dragging = Some 100" by code_simp
  have b: "p_onDismiss (props example_dragging)" by code_simp
  have c: "transform (onMove 150 example_dragging) = Some 20" by code_simp
  have d: "SWIPE_DISMISS < \<bar>150 - 100\<bar>" by (simp add: SWIPE_DISMISS_def)
  show ?thesis
    using swipe_clamps_and_dismisses_past_threshold [OF a b, of 150] a b c d by simp
qed

section \<open>Teardown\<close>

text \<open>
  The adapter's side of teardown holds: after \<open>onUnmounted\<close>, in any state the adapter
  can reach, no timer is pending, the listener is gone, and a later notification of the
  store changes nothing.
\<close>

lemma toaster_unmount_cancels_timers:
  assumes "s = toaster_run dd es toaster_init"
  shows "pending (onUnmounted s) = [] \<and> timers (onUnmounted s) = [] \<and>
    \<not> listening (onUnmounted s) \<and>
    toaster_step dd (Notify ts) (onUnmounted s) = onUnmounted s"
proof -
  have "hover_inv s"
    unfolding assms by (rule toaster_run_inv [OF toaster_init_inv])
  then show ?thesis
    by (auto simp: onUnmounted_def clearAllTimers_def hover_inv_def handles_recorded_def
        fold_clearTimeout filter_empty_conv)
qed

lemma auto_cb_nextId: "nextId s \<le> nextId (auto_cb s)"
  by (auto simp: auto_cb_def clearTimer_def setTimeout_def Let_def split: option.splits prod.splits)

lemma auto_cb_frames [simp]:
  "frames (auto_cb s) = frames s"
  "pillRo (auto_cb s) = pillRo s" "contentRo (auto_cb s) = contentRo s"
  "pillRafId (auto_cb s) = pillRafId s" "contentRafId (auto_cb s) = contentRafId s"
  by (auto simp: auto_cb_def clearTimer_def setTimeout_def Let_def split: option.splits prod.splits)

lemma setup_nextId: "0 < nextId (sileo_setup p)"
proof -
  have "1 \<le> nextId (sileo_setup p)"
    unfolding sileo_setup_def Let_def
    by (rule order_trans [OF _ auto_cb_nextId]) simp
  then show ?thesis by simp
qed

lemma clearTimer_frames [simp]:
  "frames (clearTimer t s) = frames s" "pillRo (clearTimer t s) = pillRo s"
  "contentRo (clearTimer t s) = contentRo s" "pillRafId (clearTimer t s) = pillRafId s"
  "contentRafId (clearTimer t s) = contentRafId s"
  by (simp_all add: clearTimer_def split: option.split)

lemma measurePillWidth_frames [simp]:
  "frames (measurePillWidth s) = frames s" "contentRo (measurePillWidth s) = contentRo s"
  "contentRafId (measurePillWidth s) = contentRafId s" "pillRafId (measurePillWidth s) = pillRafId s"
  by (simp_all add: measurePillWidth_def Let_def)

lemma measureContentHeight_frames [simp]:
  "frames (measureContentHeight s) = frames s" "pillRo (measureContentHeight s) = pillRo s"
  "pillRafId (measureContentHeight s) = pillRafId s"
  "contentRafId (measureContentHeight s) = contentRafId s"
  by (simp_all add: measureContentHeight_def)

lemma setupPillObserver_frames:
  "frames (setupPillObserver s) =
     (if pillRo s \<noteq> None then filter (\<lambda>e. fst e \<noteq> pillRafId s) (frames s) else frames s)"
  "contentRo (setupPillObserver s) = contentRo s"
  "contentRafId (setupPillObserver s) = contentRafId s"
  "pillRafId (setupPillObserver s) = pillRafId s"
  by (simp_all add: setupPillObserver_def cancelAnimationFrame_def Let_def)

lemma setupContentObserver_frames:
  "frames (setupContentObserver s) =
     (if contentRo s \<noteq> None then filter (\<lambda>e. fst e \<noteq> contentRafId s) (frames s) else frames s)"
  "pillRafId (setupContentObserver s) = pillRafId s"
  "contentRafId (setupContentObserver s) = contentRafId s"
  by (simp_all add: setupContentObserver_def cancelAnimationFrame_def Let_def)

lemma onMounted_frames:
  assumes "pillRo s = None" and "contentRo s = None"
  shows "frames (sileo_onMounted w pd sh s) = frames s @ [(nextId s, SetReady)]"
    and "pillRafId (sileo_onMounted w pd sh s) = pillRafId s"
    and "contentRafId (sileo_onMounted w pd sh s) = contentRafId s"
  using assms
  by (simp_all add: sileo_onMounted_def requestAnimationFrame_def Let_def
      setupPillObserver_frames setupContentObserver_frames)

lemma onUnmounted_frames:
  "frames (sileo_onUnmounted s) =
     filter (\<lambda>e. contentRo s \<noteq> None \<longrightarrow> fst e \<noteq> contentRafId s)
       (filter (\<lambda>e. pillRo s \<noteq> None \<longrightarrow> fst e \<noteq> pillRafId s) (frames s))"
proof (cases "pillRo s = None")
  case True
  then show ?thesis
    by (cases "contentRo s = None")
      (simp_all add: sileo_onUnmounted_def cancelAnimationFrame_def)
next
  case False
  then show ?thesis
    by (cases "contentRo s = None")
      (simp_all add: sileo_onUnmounted_def cancelAnimationFrame_def)
qed

text \<open>
  Whatever the props, an instance unmounted before its first animation frame still has
  the frame requested in \<open>onMounted\<close> pending: \<open>onUnmounted\<close> only cancels the two frames
  of the resize observers.
\<close>

lemma ready_frame_survives_unmount:
  "(nextId (sileo_setup p), SetReady) \<in>
     set (frames (sileo_onUnmounted (sileo_onMounted w pd sh (sileo_setup p))))"
proof -
  have a: "frames (sileo_setup p) = []" "pillRo (sileo_setup p) = None"
    "contentRo (sileo_setup p) = None" "pillRafId (sileo_setup p) = 0"
    "contentRafId (sileo_setup p) = 0"
    by (simp_all add: sileo_setup_def Let_def)
  let ?m = "sileo_onMounted w pd sh (sileo_setup p)"
  have "(nextId (sileo_setup p), SetReady) \<in> set (frames ?m)"
    and "pillRafId ?m = 0" and "contentRafId ?m = 0"
    using a by (simp_all add: onMounted_frames)
  then show ?thesis
    using setup_nextId [of p] by (simp add: onUnmounted_frames)
qed

text \<open>
  Claim C7 (the part the code does not meet). The claim says that unmounting an instance
  of the visual state machine cancels all its animation frames, so that no callback of
  the instance fires after teardown. \<open>onMounted\<close> requests a frame that sets \<open>ready\<close> and
  keeps no handle of it; \<open>onUnmounted\<close> cancels the observers' frames and the four
  timers, not this one. For the example instance, unmounted right after it was mounted:
  the frame is still pending, no timeout is, and when the frame fires the callback runs
  on the unmounted instance and sets \<open>ready\<close>.
\<close>

theorem unmount_leaves_ready_frame_pending:
  "frames (sileo_onUnmounted example_mounted) = [(1, SetReady)] \<and>
   timeouts (sileo_onUnmounted example_mounted) = [] \<and>
   unmounted (sileo_onUnmounted example_mounted) \<and>
   \<not> ready (sileo_onUnmounted example_mounted) \<and>
   ready (sileo_step (Frame 1, []) (sileo_onUnmounted example_mounted))"
  by code_simp

section \<open>Store\<close>

lemma create_fields:
  "fst (create gen state opts st) = gen (st_counter st)"
  "st_toasts (snd (create gen state opts st)) =
     st_toasts st @ [resolve_item st (gen (st_counter st)) (gen (Suc (st_counter st))) state opts]"
  "st_counter (snd (create gen state opts st)) = Suc (Suc (st_counter st))"
  by (simp_all add: create_def Let_def)

lemma resolve_item_id [simp]:
  "item_id (resolve_item st i k state opts) = i"
  "\<not> item_exiting (resolve_item st i k state opts)"
  by (simp_all add: resolve_item_def)

lemma create_fresh:
  assumes "inj gen" and "store_inv gen st"
  shows "fst (create gen state opts st) \<notin> issued gen st"
    and "fst (create gen state opts st) \<notin> item_id ` set (st_toasts st)"
proof -
  show a: "fst (create gen state opts st) \<notin> issued gen st"
    using assms(1) by (auto simp: create_fields issued_def dest: injD)
  with assms(2) show "fst (create gen state opts st) \<notin> item_id ` set (st_toasts st)"
    by (auto simp: store_inv_def)
qed

lemma create_inv:
  assumes "inj gen" and "store_inv gen st"
  shows "store_inv gen (snd (create gen state opts st))"
proof -
  have "gen (st_counter st) \<notin> item_id ` set (st_toasts st)"
    using create_fresh(2) [OF assms] by (simp add: create_fields)
  then show ?thesis
    using assms(2) by (auto simp: store_inv_def issued_def create_fields)
qed

lemma issued_mono_create: "issued gen st \<subseteq> issued gen (snd (create gen state opts st))"
  by (auto simp: issued_def create_fields)

lemma settle_ids [simp]:
  "map item_id (st_toasts (settle gen i state opts st)) = map item_id (st_toasts st)"
  by (simp add: settle_def)

lemma settle_inv: "store_inv gen st \<Longrightarrow> store_inv gen (settle gen i state opts st)"
proof -
  assume a: "store_inv gen st"
  have "item_id ` set (st_toasts (settle gen i state opts st)) = item_id ` set (st_toasts st)"
    using settle_ids [of gen i state opts st] by (metis list.set_map)
  moreover have "issued gen st \<subseteq> issued gen (settle gen i state opts st)"
    by (auto simp: issued_def settle_def)
  ultimately show ?thesis
    using a settle_ids [of gen i state opts st] unfolding store_inv_def by auto
qed

lemma dismiss_ids [simp]:
  "map item_id (st_toasts (dismiss i st)) = map item_id (st_toasts st)"
  "map item_id (st_toasts (dismiss_all st)) = map item_id (st_toasts st)"
  by (simp_all add: dismiss_def dismiss_all_def)

lemma ids_inv:
  assumes "map item_id (st_toasts st') = map item_id (st_toasts st)"
    and "st_counter st' = st_counter st" and "store_inv gen st"
  shows "store_inv gen st'"
proof -
  have "item_id ` set (st_toasts st') = item_id ` set (st_toasts st)"
    using assms(1) by (metis list.set_map)
  then show ?thesis
    using assms unfolding store_inv_def issued_def by simp
qed

lemma dismiss_inv:
  "store_inv gen st \<Longrightarrow> store_inv gen (dismiss i st)"
  "store_inv gen st \<Longrightarrow> store_inv gen (dismiss_all st)"
proof -
  assume a: "store_inv gen st"
  show "store_inv gen (dismiss i st)"
    by (rule ids_inv [OF _ _ a]) (simp_all add: dismiss_def)
  show "store_inv gen (dismiss_all st)"
    by (rule ids_inv [OF _ _ a]) (simp_all add: dismiss_all_def)
qed

lemma clear_remove_inv:
  "store_inv gen st \<Longrightarrow> store_inv gen (clear st)"
  "store_inv gen st \<Longrightarrow> store_inv gen (remove i st)"
  by (auto simp: store_inv_def issued_def clear_def remove_def distinct_map_filter)

lemma store_apply_inv:
  assumes "inj gen" and "store_inv gen st"
  shows "store_inv gen (snd (store_apply gen ds c st))"
  using assms
  by (cases c) (simp_all add: create_inv settle_inv dismiss_inv clear_remove_inv split: prod.split,
      (metis create_inv snd_conv)+)

lemma store_apply_issued: "issued gen st \<subseteq> issued gen (snd (store_apply gen ds c st))"
  by (cases c)
    (auto simp: issued_def create_def Let_def settle_def dismiss_def dismiss_all_def clear_def
      remove_def split: prod.split)

lemma store_apply_returns:
  assumes "inj gen" and "fst (store_apply gen ds c st) = Some i"
  shows "i \<notin> issued gen st \<and> i \<in> issued gen (snd (store_apply gen ds c st))"
  using assms
  by (cases c) (auto simp: issued_def create_def Let_def dest: injD split: prod.splits)

lemma store_apply_all_returns:
  assumes "inj gen" and "store_inv gen st"
  shows "distinct (fst (store_apply_all gen ds cs st)) \<and>
    set (fst (store_apply_all gen ds cs st)) \<inter> issued gen st = {} \<and>
    store_inv gen (snd (store_apply_all gen ds cs st)) \<and>
    issued gen st \<subseteq> issued gen (snd (store_apply_all gen ds cs st)) \<and>
    set (fst (store_apply_all gen ds cs st)) \<subseteq> issued gen (snd (store_apply_all gen ds cs st))"
  using assms(2)
proof (induction cs arbitrary: st)
  case Nil
  then show ?case by simp
next
  case (Cons c cs)
  obtain r st1 where c: "store_apply gen ds c st = (r, st1)" by (cases "store_apply gen ds c st")
  obtain ids st2 where cs: "store_apply_all gen ds cs st1 = (ids, st2)"
    by (cases "store_apply_all gen ds cs st1")
  have inv1: "store_inv gen st1"
    using store_apply_inv [OF assms(1) Cons.prems, of ds c] c by simp
  have mono: "issued gen st \<subseteq> issued gen st1"
    using store_apply_issued [of gen st ds c] c by simp
  from Cons.IH [OF inv1] cs have ih: "distinct ids" "set ids \<inter> issued gen st1 = {}"
    "store_inv gen st2" "issued gen st1 \<subseteq> issued gen st2" "set ids \<subseteq> issued gen st2"
    by simp_all
  show ?case
  proof (cases r)
    case None
    with c cs ih mono show ?thesis by auto
  next
    case (Some i)
    have "i \<notin> issued gen st \<and> i \<in> issued gen st1"
      using store_apply_returns [OF assms(1), of ds c st i] c Some by simp
    with c cs ih mono Some show ?thesis by auto
  qed
qed

lemma store_init_inv: "store_inv gen store_init"
  by (simp add: store_inv_def store_init_def issued_def)

lemma inj_tally: "inj tally"
  by (rule injI) (metis length_replicate tally_def)

text \<open>
  Claim C2 (against the store as the spec describes it). For every sequence of calls on
  the initial store, with an injective id generator: the ids the calls return are
  pairwise distinct; the ids in the resulting list are pairwise distinct; and a further
  \<open>show\<close> or wrapper call returns an id that is neither among those returned before nor
  in the list, and its toast is appended at the end of the list, the toasts before it
  left as they were.
\<close>

theorem show_ids_distinct_and_appended:
  assumes "inj gen" and "store_apply_all gen ds cs store_init = (ids, st)"
  shows "distinct ids \<and> distinct (map item_id (st_toasts st)) \<and>
    fst (create gen state opts st) \<notin> set ids \<and>
    fst (create gen state opts st) \<notin> item_id ` set (st_toasts st) \<and>
    (\<exists>t. st_toasts (snd (create gen state opts st)) = st_toasts st @ [t] \<and>
         item_id t = fst (create gen state opts st))"
proof -
  from store_apply_all_returns [OF assms(1) store_init_inv, of ds cs] assms(2)
  have d: "distinct ids" and inv: "store_inv gen st" and sub: "set ids \<subseteq> issued gen st"
    by simp_all
  have f: "fst (create gen state opts st) \<notin> issued gen st"
    by (rule create_fresh(1) [OF assms(1) inv])
  have "st_toasts (snd (create gen state opts st)) =
      st_toasts st @ [resolve_item st (gen (st_counter st)) (gen (Suc (st_counter st))) state opts]
    \<and> item_id (resolve_item st (gen (st_counter st)) (gen (Suc (st_counter st))) state opts) =
      fst (create gen state opts st)"
    by (simp add: create_fields)
  then have ex: "\<exists>t. st_toasts (snd (create gen state opts st)) = st_toasts st @ [t] \<and>
      item_id t = fst (create gen state opts st)" by blast
  show ?thesis
    using d inv sub f ex create_fresh(2) [OF assms(1) inv, of state opts]
    by (auto simp: store_inv_def)
qed

theorem show_ids_distinct_and_appended_witness:
  "inj tally \<and>
   fst (store_apply_all tally Info example_calls store_init) = [[], ''ii'', ''iiii''] \<and>
   distinct (fst (store_apply_all tally Info example_calls store_init)) \<and>
   fst (create tally Success no_options (snd (store_apply_all tally Info example_calls store_init)))
     = ''iiiiii'' \<and>
   fst (create tally Success no_options (snd (store_apply_all tally Info example_calls store_init)))
     \<notin> set (fst (store_apply_all tally Info example_calls store_init))"
proof -
  have e: "fst (store_apply_all tally Info example_calls store_init) = [[], ''ii'', ''iiii'']"
    by code_simp
  have c: "fst (create tally Success no_options
      (snd (store_apply_all tally Info example_calls store_init))) = ''iiiiii''"
    by code_simp
  show ?thesis
    using show_ids_distinct_and_appended [OF inj_tally, of Info example_calls
        "fst (store_apply_all tally Info example_calls store_init)"
        "snd (store_apply_all tally Info example_calls store_init)" Success no_options]
      inj_tally e c
    by simp
qed

lemma dismiss_dismissed:
  "i \<in> issued gen st \<Longrightarrow> dismissed gen i (dismiss i st)"
  by (auto simp: dismissed_def dismiss_def issued_def list_all_iff)

lemma settle_dismissed_noop: "dismissed gen i st \<Longrightarrow> settle gen i state opts st = st"
  by (auto simp: dismissed_def settle_def list_all_iff)

lemma store_apply_dismissed:
  assumes "inj gen" and "dismissed gen i st"
  shows "dismissed gen i (snd (store_apply gen ds c st))"
proof -
  have iss: "i \<in> issued gen (snd (store_apply gen ds c st))"
    using assms(2) store_apply_issued [of gen st ds c] by (auto simp: dismissed_def)
  have fresh: "gen (st_counter st) \<noteq> i"
    using assms by (auto simp: dismissed_def issued_def dest: injD)
  have "list_all (\<lambda>t. item_id t \<noteq> i \<or> item_exiting t)
      (st_toasts (snd (store_apply gen ds c st)))"
  proof (cases c)
    case (Settle j state opts)
    show ?thesis
    proof (cases "j = i")
      case True
      with Settle assms(2) show ?thesis
        by (simp add: settle_dismissed_noop) (simp add: dismissed_def)
    next
      case False
      with Settle assms(2) show ?thesis
        by (auto simp: dismissed_def settle_def list_all_iff)
    qed
  qed (use assms(2) fresh in \<open>auto simp: dismissed_def create_def Let_def dismiss_def
        dismiss_all_def clear_def remove_def list_all_iff split: prod.splits\<close>)
  with iss show ?thesis by (simp add: dismissed_def)
qed

lemma store_apply_all_Cons:
  "snd (store_apply_all gen ds (c # cs) st) =
     snd (store_apply_all gen ds cs (snd (store_apply gen ds c st)))"
  by (cases "store_apply gen ds c st";
      cases "store_apply_all gen ds cs (snd (store_apply gen ds c st))") simp

lemma store_apply_all_dismissed:
  assumes "inj gen" and "dismissed gen i st"
  shows "dismissed gen i (snd (store_apply_all gen ds cs st))"
  using assms(2)
proof (induction cs arbitrary: st)
  case Nil
  then show ?case by simp
next
  case (Cons c cs)
  from Cons.IH [OF store_apply_dismissed [OF assms(1) Cons.prems, of ds c]]
  show ?case by (simp only: store_apply_all_Cons)
qed

lemma store_apply_all_issued: "issued gen st \<subseteq> issued gen (snd (store_apply_all gen ds cs st))"
proof (induction cs arbitrary: st)
  case Nil
  then show ?case by simp
next
  case (Cons c cs)
  have "issued gen st \<subseteq> issued gen (snd (store_apply gen ds c st))"
    by (rule store_apply_issued)
  also have "\<dots> \<subseteq> issued gen (snd (store_apply_all gen ds cs (snd (store_apply gen ds c st))))"
    by (rule Cons.IH)
  finally show ?case by (simp only: store_apply_all_Cons)
qed

text \<open>
  Claim C3 (against the store as the spec describes it). Take a toast created by
  \<open>promise\<close> at any point of the store's life, let any calls follow, then \<open>dismiss\<close> on its
  id, then any further calls (the adapter's removal of the toast among them). When the
  operation then settles, the store is left exactly as it was: no content is replaced,
  nothing is inserted, and every toast of that id still in the list is exiting.
\<close>

theorem late_settlement_is_suppressed:
  assumes "inj gen"
    and "store_apply gen ds (Promise opts) (snd (store_apply_all gen ds before store_init)) = (Some i, st1)"
    and "st2 = snd (store_apply_all gen ds between st1)"
    and "st3 = snd (store_apply_all gen ds after (dismiss i st2))"
  shows "settle gen i state opts' st3 = st3 \<and>
    list_all (\<lambda>t. item_id t \<noteq> i \<or> item_exiting t) (st_toasts st3)"
proof -
  have "i \<in> issued gen st1"
    using store_apply_returns [OF assms(1), of ds "Promise opts"
        "snd (store_apply_all gen ds before store_init)" i] assms(2)
    by simp
  then have "i \<in> issued gen st2"
    unfolding assms(3) using store_apply_all_issued [of gen st1 ds between] by auto
  then have "dismissed gen i (dismiss i st2)" by (rule dismiss_dismissed)
  then have d: "dismissed gen i st3"
    unfolding assms(4) by (rule store_apply_all_dismissed [OF assms(1)])
  then show ?thesis
    by (simp add: settle_dismissed_noop) (simp add: dismissed_def)
qed

theorem late_settlement_is_suppressed_witness:
  "inj tally \<and>
   store_apply tally Info (Promise no_options) (snd (store_apply_all tally Info example_calls store_init))
     = (Some ''iiiiii'',
        snd (store_apply tally Info (Promise no_options)
          (snd (store_apply_all tally Info example_calls store_init)))) \<and>
   settle tally ''iiiiii'' Success no_options
     (snd (store_apply_all tally Info [Show no_options]
        (dismiss ''iiiiii''
          (snd (store_apply_all tally Info [Wrapper Info no_options]
             (snd (store_apply tally Info (Promise no_options)
                (snd (store_apply_all tally Info example_calls store_init))))))))) =
     snd (store_apply_all tally Info [Show no_options]
        (dismiss ''iiiiii''
          (snd (store_apply_all tally Info [Wrapper Info no_options]
             (snd (store_apply tally Info (Promise no_options)
                (snd (store_apply_all tally Info example_calls store_init))))))))"
proof -
  have p: "store_apply tally Info (Promise no_options)
      (snd (store_apply_all tally Info example_calls store_init))
     = (Some ''iiiiii'',
        snd (store_apply tally Info (Promise no_options)
          (snd (store_apply_all tally Info example_calls store_init))))"
    by code_simp
  show ?thesis
    using late_settlement_is_suppressed
        [where gen = tally and ds = Info and opts = no_options and before = example_calls
          and i = "''iiiiii''" and between = "[Wrapper Info no_options]"
          and after = "[Show no_options]" and state = Success and opts' = no_options,
          OF inj_tally p refl refl]
      inj_tally p
    by simp
qed

section \<open>The adapter with its toasts: at most one open\<close>

subsection \<open>The watchers keep the invariant of a step\<close>

text \<open>
  \<open>micro_inv\<close> depends only on the logic state and on the auto-expand timers; each watcher
  keeps it, in whatever order the watchers run.
\<close>

lemma micro_inv_cong:
  assumes "logic_state t = logic_state s" and "timers_shrink s t" and "micro_inv b s"
  shows "micro_inv b t"
proof -
  note f = logic_state_fields [OF assms(1)]
  have sn: "seen_hasDesc t = seen_hasDesc s" "seen_allow t = seen_allow s"
    "seen_exiting t = seen_exiting s" "seen_applied t = seen_applied s"
    by (simp_all add: seen_hasDesc_def seen_allow_def seen_exiting_def seen_applied_def f)
  have "controlled t = controlled s" "refresh_key_seen t = refresh_key_seen s"
    "pending_ok t = pending_ok s" "applied_in_step t = applied_in_step s"
    "open_allowed t = open_allowed s" "exiting_stays_closed b t = exiting_stays_closed b s"
    by (simp_all add: controlled_def refresh_key_seen_def pending_ok_def applied_in_step_def
        refresh_due_def open_allowed_def exiting_stays_closed_def auto_due_def canExpand_def f sn)
  moreover have "expand_timers_ok t"
    using assms(2,3) by (auto simp: micro_inv_def expand_timers_ok_def timers_shrink_def sn)
  ultimately show ?thesis using assms(3) by (simp add: micro_inv_def)
qed

lemma micro_inv_fields:
  assumes "props t = props s" "view t = view s" "applied t = applied s"
    "isExpanded t = isExpanded s" "lastRefreshKey t = lastRefreshKey s"
    "pendingView t = pendingView s" "fst (snd (seenRefresh t)) = fst (snd (seenRefresh s))"
    "seenAuto t = seenAuto s"
    and "timers_shrink s t" and "micro_inv b s"
  shows "micro_inv b t"
proof -
  have d: "hasDesc t = hasDesc s" "isLoading t = isLoading s"
    by (simp_all only: hasDesc_def isLoading_def assms)
  have o: "isOpen t = isOpen s" "allowExpand t = allowExpand s"
    by (simp_all only: isOpen_def allowExpand_def assms d)
  have a: "auto_sources t = auto_sources s"
    by (simp only: auto_sources_def assms d o)
  have sn: "seen_hasDesc t = seen_hasDesc s" "seen_allow t = seen_allow s"
    "seen_exiting t = seen_exiting s" "seen_applied t = seen_applied s"
    by (simp_all add: seen_hasDesc_def seen_allow_def seen_exiting_def seen_applied_def assms)
  have "controlled t = controlled s" "refresh_key_seen t = refresh_key_seen s"
    "pending_ok t = pending_ok s" "applied_in_step t = applied_in_step s"
    "open_allowed t = open_allowed s" "exiting_stays_closed b t = exiting_stays_closed b s"
    by (simp_all add: controlled_def refresh_key_seen_def pending_ok_def applied_in_step_def
        refresh_due_def open_allowed_def exiting_stays_closed_def auto_due_def canExpand_def
        assms d o a sn)
  moreover have "expand_timers_ok t"
    using assms(9,10) by (auto simp: micro_inv_def expand_timers_ok_def timers_shrink_def sn)
  ultimately show ?thesis using assms(10) by (simp add: micro_inv_def)
qed

lemma micro_inv_weaken: "micro_inv b s \<Longrightarrow> (b \<Longrightarrow> b') \<Longrightarrow> micro_inv b' s"
  by (auto simp: micro_inv_def exiting_stays_closed_def)

lemma quiescent_seen:
  assumes "quiescent s"
  shows "seen_hasDesc s = hasDesc s" "seen_allow s = allowExpand s"
    "seen_exiting s = p_exiting (props s)" "seen_applied s = applied s" "\<not> auto_due s"
proof -
  from assms have "seenAuto s = auto_sources s" by (simp add: quiescent_def)
  then show "seen_hasDesc s = hasDesc s" "seen_allow s = allowExpand s"
    "seen_exiting s = p_exiting (props s)" "seen_applied s = applied s" "\<not> auto_due s"
    by (simp_all add: seen_hasDesc_def seen_allow_def seen_exiting_def seen_applied_def
        auto_sources_def auto_due_def)
qed

lemma quiescent_key:
  assumes "quiescent s" and "refresh_key_seen s"
  shows "\<not> refresh_due s"
proof -
  from assms(1) have "seenRefresh s = refresh_sources s" by (simp add: quiescent_def)
  then have "fst (snd (seenRefresh s)) = p_refreshKey (props s)"
    by (simp add: refresh_sources_def)
  with assms(2) show ?thesis by (simp add: refresh_key_seen_def refresh_due_def)
qed

lemma good_micro: "good s \<Longrightarrow> micro_inv (isOpen s) s"
  using quiescent_key [of s]
  by (auto simp: good_def micro_inv_def applied_in_step_def open_allowed_def
      exiting_stays_closed_def)

lemma micro_good:
  assumes "micro_inv b s" and "quiescent s"
  shows "good s" and "p_exiting (props s) \<and> isOpen s \<longrightarrow> b"
  using assms quiescent_seen(5) [OF assms(2)]
  by (auto simp: good_def micro_inv_def open_allowed_def exiting_stays_closed_def)

lemma allowExpand_controlled:
  "controlled s \<Longrightarrow> allowExpand s = (\<not> isLoading s \<and> canExpand s)"
  by (auto simp: controlled_def allowExpand_def canExpand_def)

lemma clearTimer_more [simp]:
  "allowExpand (clearTimer t s) = allowExpand s" "isLoading (clearTimer t s) = isLoading s"
  "autoExpandTimer (clearTimer t s) = autoExpandTimer s"
  "autoCollapseTimer (clearTimer t s) = autoCollapseTimer s"
  "nextId (clearTimer t s) = nextId s"
  by (simp_all add: logic_state_fields [OF logic_clearTimer])
    (simp_all add: clearTimer_def split: option.split)

lemma auto_cb_isExpanded:
  "isExpanded (auto_cb s) =
     (if \<not> hasDesc s then isExpanded s
      else if p_exiting (props s) \<or> \<not> allowExpand s then False
      else if p_autoExpandDelayMs (props s) = None \<and> p_autoCollapseDelayMs (props s) = None
      then isExpanded s
      else if (case p_autoExpandDelayMs (props s) of Some d \<Rightarrow> d | None \<Rightarrow> 0) > 0
      then isExpanded s else True)"
proof -
  define s1 where "s1 = clearTimer (autoCollapseTimer s) (clearTimer (autoExpandTimer s) s)"
  have f: "hasDesc s1 = hasDesc s" "allowExpand s1 = allowExpand s" "props s1 = props s"
    "isExpanded s1 = isExpanded s"
    by (simp_all add: s1_def)
  show ?thesis
    unfolding auto_cb_def s1_def [symmetric] Let_def
    by (simp add: f setTimeout_def split: prod.split)
qed

lemma auto_cb_expand_timers:
  assumes "\<forall>e \<in> set (timeouts s). snd (snd e) = AutoExpand \<longrightarrow> autoExpandTimer s = Some (fst e)"
    and "e \<in> set (timeouts (auto_cb s))" and "snd (snd e) = AutoExpand"
  shows "autoExpandTimer (auto_cb s) = Some (fst e) \<and> hasDesc s \<and> allowExpand s \<and>
    \<not> p_exiting (props s)"
proof -
  define s1 where "s1 = clearTimer (autoCollapseTimer s) (clearTimer (autoExpandTimer s) s)"
  have f: "hasDesc s1 = hasDesc s" "allowExpand s1 = allowExpand s" "props s1 = props s"
    by (simp_all add: s1_def)
  have none: "\<forall>x \<in> set (timeouts s1). snd (snd x) \<noteq> AutoExpand"
    using assms(1) by (auto simp: s1_def clearTimer_def split: option.splits)
  show ?thesis
    using assms(2,3) none
    unfolding auto_cb_def s1_def [symmetric] Let_def
    by (auto simp: f setTimeout_def split: prod.splits if_splits)
qed

lemma derived_eq:
  assumes "props t = props s" "view t = view s"
  shows "hasDesc t = hasDesc s" "isLoading t = isLoading s" "allowExpand t = allowExpand s"
    "canExpand t = canExpand s"
proof -
  show d: "hasDesc t = hasDesc s" "isLoading t = isLoading s"
    by (simp_all only: hasDesc_def isLoading_def assms)
  show "allowExpand t = allowExpand s" "canExpand t = canExpand s"
    by (simp_all only: allowExpand_def canExpand_def assms d)
qed

lemma auto_cb_inv:
  assumes c: "controlled s" "refresh_key_seen s" "pending_ok s"
    and tr: "\<forall>e \<in> set (timeouts s). snd (snd e) = AutoExpand \<longrightarrow> autoExpandTimer s = Some (fst e)"
  shows "micro_inv b (auto_cb (s\<lparr> seenAuto := auto_sources s \<rparr>))"
proof -
  define s1 where "s1 = s\<lparr> seenAuto := auto_sources s \<rparr>"
  define t where "t = auto_cb s1"
  have f1: "props s1 = props s" "view s1 = view s" "timeouts s1 = timeouts s"
    "autoExpandTimer s1 = autoExpandTimer s" "isExpanded s1 = isExpanded s"
    by (simp_all add: s1_def)
  note d1 = derived_eq [OF f1(1,2)]
  have f: "props t = props s" "view t = view s" "applied t = applied s"
    "lastRefreshKey t = lastRefreshKey s" "pendingView t = pendingView s"
    "seenRefresh t = seenRefresh s" "seenAuto t = auto_sources s"
    by (simp_all add: t_def s1_def)
  note d = derived_eq [OF f(1,2)]
  have e: "isExpanded t =
     (if \<not> hasDesc s then isExpanded s
      else if p_exiting (props s) \<or> \<not> allowExpand s then False
      else if p_autoExpandDelayMs (props s) = None \<and> p_autoCollapseDelayMs (props s) = None
      then isExpanded s
      else if (case p_autoExpandDelayMs (props s) of Some d \<Rightarrow> d | None \<Rightarrow> 0) > 0
      then isExpanded s else True)"
    unfolding t_def auto_cb_isExpanded by (simp add: f1 d1)
  have seen: "seen_hasDesc t = hasDesc s" "seen_allow t = allowExpand s"
    "seen_exiting t = p_exiting (props s)" "seen_applied t = applied s"
    by (simp_all add: seen_hasDesc_def seen_allow_def seen_exiting_def seen_applied_def f
        auto_sources_def)
  have 1: "controlled t" using c(1) by (simp add: controlled_def f)
  have 2: "refresh_key_seen t" using c(2) by (simp add: refresh_key_seen_def f)
  have 3: "pending_ok t" using c(3) by (simp add: pending_ok_def f d)
  have 4: "applied_in_step t" by (simp add: applied_in_step_def seen f)
  have 5: "expand_timers_ok t"
  proof -
    have old: "\<forall>e \<in> set (timeouts s1). snd (snd e) = AutoExpand \<longrightarrow>
        autoExpandTimer s1 = Some (fst e)"
      using tr by (simp add: f1)
    show ?thesis
      unfolding expand_timers_ok_def seen
      using auto_cb_expand_timers [OF old] by (auto simp: t_def f1 d1)
  qed
  have op: "isOpen t \<longrightarrow> canExpand t \<and> \<not> p_exiting (props t)"
    using allowExpand_controlled [OF c(1)]
    by (auto simp: isOpen_def e d f split: if_splits)
  have 6: "open_allowed t" using op by (auto simp: open_allowed_def)
  have 7: "exiting_stays_closed b t" using op by (auto simp: exiting_stays_closed_def)
  show ?thesis
    unfolding t_def [symmetric] s1_def [symmetric] t_def [symmetric]
    using 1 2 3 4 5 6 7 by (simp add: micro_inv_def t_def s1_def)
qed

lemma auto_run_inv:
  assumes "micro_inv b s"
  shows "micro_inv b (run_watcher AutoWatcher s)"
proof (cases "auto_sources s = seenAuto s")
  case True
  with assms show ?thesis by simp
next
  case False
  have "micro_inv b (auto_cb (s\<lparr> seenAuto := auto_sources s \<rparr>))"
    using assms by (intro auto_cb_inv) (auto simp: micro_inv_def expand_timers_ok_def)
  with False show ?thesis by simp
qed

lemma auto_run_clean: "\<not> auto_due (run_watcher AutoWatcher s)"
proof (cases "auto_sources s = seenAuto s")
  case True
  then show ?thesis by (simp add: auto_due_def)
next
  case False
  define t where "t = auto_cb (s\<lparr> seenAuto := auto_sources s \<rparr>)"
  have f: "props t = props s" "view t = view s" "applied t = applied s"
    "seenAuto t = auto_sources s"
    by (simp_all add: t_def)
  note d = derived_eq [OF f(1,2)]
  have "auto_sources t = auto_sources s" by (simp add: auto_sources_def f d)
  then show ?thesis using False by (simp add: auto_due_def f t_def [symmetric])
qed

lemma quiescent_seen_applied: "\<not> auto_due t \<Longrightarrow> seen_applied t = applied t"
proof -
  assume "\<not> auto_due t"
  then have "seenAuto t = auto_sources t" by (simp add: auto_due_def)
  then show ?thesis by (simp add: seen_applied_def auto_sources_def)
qed

lemma timers_shrink_refl [simp]: "timers_shrink s s"
  by (simp add: timers_shrink_def)

lemma timers_shrink_trans: "timers_shrink s t \<Longrightarrow> timers_shrink t u \<Longrightarrow> timers_shrink s u"
  by (auto simp: timers_shrink_def)

lemma timers_shrink_clearTimer [simp]: "timers_shrink s (clearTimer x s)"
  by (auto simp: timers_shrink_def clearTimer_def split: option.splits)

lemma timers_shrink_eq:
  "timeouts t = timeouts s \<Longrightarrow> autoExpandTimer t = autoExpandTimer s \<Longrightarrow> timers_shrink s t"
  by (simp add: timers_shrink_def)

lemma set_view_timers [simp]: "timers_shrink s (set_view v s)"
  by (simp add: timers_shrink_def)

lemma refresh_cb_timers: "timers_shrink s (refresh_cb ov rk nv s)"
proof (cases rk)
  case None
  then show ?thesis by (simp add: refresh_cb_def timers_shrink_def)
next
  case (Some k)
  show ?thesis
  proof (cases "lastRefreshKey s = Some k")
    case True
    with Some show ?thesis by simp
  next
    case False
    define s2 where "s2 = (if swapTimer s \<noteq> None
        then (clearTimer (swapTimer s) (s\<lparr> lastRefreshKey := Some k \<rparr>))\<lparr> swapTimer := None \<rparr>
        else s\<lparr> lastRefreshKey := Some k \<rparr>)"
    have sh: "timers_shrink s s2"
      by (auto simp: s2_def timers_shrink_def clearTimer_def split: option.splits)
    show ?thesis
    proof (cases ov)
      case True
      have "refresh_cb ov rk nv s =
          (snd (setTimeout SwapContent SWAP_COLLAPSE_MS
            (s2\<lparr> pendingView := Some (k, nv), isExpanded := False \<rparr>)))
            \<lparr> swapTimer := Some (nextId s2) \<rparr>"
        using Some False True by (simp add: refresh_cb_def Let_def s2_def setTimeout_def)
      then show ?thesis
        using sh by (auto simp: timers_shrink_def setTimeout_def)
    next
      case no: False
      have "refresh_cb ov rk nv s = (set_view nv (s2\<lparr> pendingView := None \<rparr>))\<lparr> applied := Some k \<rparr>"
        using Some False no by (simp add: refresh_cb_def Let_def s2_def)
      then show ?thesis
        using sh by (auto simp: timers_shrink_def)
    qed
  qed
qed

lemma refresh_run_inv:
  assumes "micro_inv b s"
  shows "micro_inv b (run_watcher RefreshWatcher s)"
proof (cases "refresh_sources s = seenRefresh s")
  case True
  with assms show ?thesis by simp
next
  case dirty: False
  have c: "controlled s" "refresh_key_seen s" "pending_ok s" "applied_in_step s"
    "expand_timers_ok s" "open_allowed s" "exiting_stays_closed b s"
    using assms by (simp_all add: micro_inv_def)
  from c(1) obtain k where k: "p_refreshKey (props s) = Some k"
    by (auto simp: controlled_def)
  define s1 where "s1 = s\<lparr> seenRefresh := refresh_sources s \<rparr>"
  define t where "t = refresh_cb (isOpen s) (Some k) (next_view (props s)) s1"
  have r: "run_watcher RefreshWatcher s = t" using dirty k by (simp add: t_def s1_def)
  have s1f: "lastRefreshKey s1 = lastRefreshKey s" "props s1 = props s" "view s1 = view s"
    "applied s1 = applied s" "isExpanded s1 = isExpanded s" "pendingView s1 = pendingView s"
    "seenAuto s1 = seenAuto s" "timeouts s1 = timeouts s"
    "autoExpandTimer s1 = autoExpandTimer s"
    "fst (snd (seenRefresh s1)) = Some k"
    by (simp_all add: s1_def refresh_sources_def k)
  have sh1: "timers_shrink s s1" by (simp add: timers_shrink_def s1f)
  have sh: "timers_shrink s t"
    unfolding t_def by (rule timers_shrink_trans [OF sh1 refresh_cb_timers])
  show ?thesis
  proof (cases "lastRefreshKey s = Some k")
    case True
    then have "t = s1" by (simp add: t_def s1f)
    moreover have "micro_inv b s1"
      using c(2) True
      by (intro micro_inv_fields [OF _ _ _ _ _ _ _ _ sh1 assms])
        (simp_all add: s1f refresh_key_seen_def)
    ultimately show ?thesis unfolding r by simp
  next
    case new: False
    then have l: "lastRefreshKey s1 \<noteq> Some k" by (simp add: s1f)
    have due: "refresh_due s" using new k by (simp add: refresh_due_def)
    have common: "props t = props s" "seenAuto t = seenAuto s" "lastRefreshKey t = Some k"
      "seenRefresh t = seenRefresh s1"
      by (simp_all add: t_def s1f)
    have 1: "controlled t" using c(1) by (simp add: controlled_def common)
    have 2: "refresh_key_seen t" by (simp add: refresh_key_seen_def common s1f)
    have nd: "\<not> refresh_due t" by (simp add: refresh_due_def common k)
    have 4: "applied_in_step t" using nd by (simp add: applied_in_step_def)
    have sn: "seen_hasDesc t = seen_hasDesc s" "seen_allow t = seen_allow s"
      "seen_exiting t = seen_exiting s" "seen_applied t = seen_applied s"
      by (simp_all add: seen_hasDesc_def seen_allow_def seen_exiting_def seen_applied_def common)
    have 5: "expand_timers_ok t"
      using c(5) sh by (auto simp: expand_timers_ok_def timers_shrink_def sn)
    show ?thesis
    proof (cases "isOpen s")
      case True
      note o = refresh_cb_open [OF l, of "next_view (props s)"]
      have f: "view t = view s" "pendingView t = Some (k, next_view (props s))"
        "\<not> isExpanded t"
        using o True by (simp_all add: t_def s1f)
      note d = derived_eq [OF common(1) f(1)]
      have 3: "pending_ok t"
        using True by (simp add: pending_ok_def f common d isOpen_def)
      have no: "\<not> isOpen t" using f(3) by (simp add: isOpen_def)
      have 6: "open_allowed t" using no by (simp add: open_allowed_def)
      have 7: "exiting_stays_closed b t" using no by (simp add: exiting_stays_closed_def)
      show ?thesis unfolding r using 1 2 3 4 5 6 7 by (simp add: micro_inv_def)
    next
      case False
      note o = refresh_cb_closed [OF l, of "next_view (props s)"]
      have f: "view t = next_view (props s)" "pendingView t = None"
        "isExpanded t = isExpanded s" "applied t = Some k"
        using o False by (simp_all add: t_def s1f)
      have 3: "pending_ok t" by (simp add: pending_ok_def f common)
      have od: "isOpen t \<longrightarrow> auto_due t"
      proof
        assume ot: "isOpen t"
        then have e: "isExpanded s" by (simp add: isOpen_def f)
        with False have "\<not> hasDesc s \<or> isLoading s" by (simp add: isOpen_def)
        with c(3) have "pendingView s = None"
          by (cases "pendingView s") (auto simp: pending_ok_def)
        with c(3) have "applied s = lastRefreshKey s" by (simp add: pending_ok_def)
        moreover from c(4) due have "seen_applied s = applied s"
          by (simp add: applied_in_step_def)
        ultimately have "seen_applied t \<noteq> applied t"
          using new by (simp add: sn f)
        then show "auto_due t"
          using quiescent_seen_applied [of t] by blast
      qed
      have 6: "open_allowed t" using od by (simp add: open_allowed_def)
      have 7: "exiting_stays_closed b t" using od by (simp add: exiting_stays_closed_def)
      show ?thesis unfolding r using 1 2 3 4 5 6 7 by (simp add: micro_inv_def)
    qed
  qed
qed

lemma frames_ops_timers [simp]:
  "timeouts (cancelAnimationFrame h s) = timeouts s"
  "autoExpandTimer (cancelAnimationFrame h s) = autoExpandTimer s"
  "timeouts (measurePillWidth s) = timeouts s"
  "autoExpandTimer (measurePillWidth s) = autoExpandTimer s"
  "timeouts (measureContentHeight s) = timeouts s"
  "autoExpandTimer (measureContentHeight s) = autoExpandTimer s"
  by (simp_all add: cancelAnimationFrame_def measurePillWidth_def measureContentHeight_def Let_def)

lemma observers_timers [simp]:
  "timeouts (setupPillObserver s) = timeouts s"
  "autoExpandTimer (setupPillObserver s) = autoExpandTimer s"
  "timeouts (setupContentObserver s) = timeouts s"
  "autoExpandTimer (setupContentObserver s) = autoExpandTimer s"
  by (simp_all add: setupPillObserver_def setupContentObserver_def Let_def)

lemma header_prev_cb_timers: "timers_shrink s (header_prev_cb s)"
proof (cases "headerPrev s = None")
  case True
  then show ?thesis by (simp add: header_prev_cb_def)
next
  case False
  define s1 where "s1 = clearTimer (headerExitTimer s) s"
  have "header_prev_cb s =
      (snd (setTimeout HeaderExit HEADER_EXIT_MS s1))\<lparr> headerExitTimer := Some (nextId s1) \<rparr>"
    by (simp add: header_prev_cb_def Let_def s1_def setTimeout_def False)
  moreover have "timers_shrink s s1" by (simp add: s1_def)
  ultimately show ?thesis by (auto simp: timers_shrink_def setTimeout_def)
qed

lemma peripheral_timers:
  assumes "w \<noteq> RefreshWatcher" and "w \<noteq> AutoWatcher"
  shows "timers_shrink s (run_watcher w s)"
proof (cases w)
  case HeaderPrevWatcher
  have "timers_shrink s (s\<lparr> seenHeaderPrev := headerPrev s \<rparr>)"
    by (simp add: timers_shrink_def)
  from timers_shrink_trans [OF this header_prev_cb_timers]
  show ?thesis by (simp add: HeaderPrevWatcher)
next
  case HeaderKeyWatcher
  show ?thesis by (simp add: HeaderKeyWatcher timers_shrink_def)
next
  case HasDescWatcher
  show ?thesis by (simp add: HasDescWatcher timers_shrink_def)
qed (use assms in simp_all)

lemma peripheral_run_inv:
  assumes "w \<noteq> RefreshWatcher" and "w \<noteq> AutoWatcher" and "micro_inv b s"
  shows "micro_inv b (run_watcher w s)"
  by (rule micro_inv_cong [OF run_watcher_peripheral [OF assms(1,2)]
        peripheral_timers [OF assms(1,2)] assms(3)])

lemma run_watcher_inv:
  assumes "micro_inv b s"
  shows "micro_inv b (run_watcher w s)"
proof (cases w)
  case RefreshWatcher
  show ?thesis unfolding RefreshWatcher by (rule refresh_run_inv [OF assms])
next
  case AutoWatcher
  show ?thesis unfolding AutoWatcher by (rule auto_run_inv [OF assms])
qed (simp_all add: peripheral_run_inv [OF _ _ assms] del: run_watcher.simps)

lemma fold_watchers_inv: "micro_inv b s \<Longrightarrow> micro_inv b (fold run_watcher ws s)"
  by (induction ws arbitrary: s) (simp_all add: run_watcher_inv del: run_watcher.simps)

lemma render_inv: "micro_inv b s \<Longrightarrow> micro_inv b (render s)"
  by (rule micro_inv_fields [where s = s]) (simp_all add: timers_shrink_def render_def expanded_def)

subsection \<open>The handlers establish the invariant of a step\<close>

text \<open>
  From a \<open>good\<close> instance, new props from the adapter, the pointer entering or leaving,
  and every event of the instance's own lead to a state with \<open>micro_inv\<close>.
\<close>

lemma clean_seen:
  assumes "\<not> auto_due s"
  shows "seen_hasDesc s = hasDesc s" "seen_allow s = allowExpand s"
    "seen_exiting s = p_exiting (props s)" "seen_applied s = applied s"
proof -
  from assms have "seenAuto s = auto_sources s" by (simp add: auto_due_def)
  then show "seen_hasDesc s = hasDesc s" "seen_allow s = allowExpand s"
    "seen_exiting s = p_exiting (props s)" "seen_applied s = applied s"
    by (simp_all add: seen_hasDesc_def seen_allow_def seen_exiting_def seen_applied_def
        auto_sources_def)
qed

lemma good_parts:
  assumes "good g"
  shows "quiescent g" "controlled g" "refresh_key_seen g" "pending_ok g" "expand_timers_ok g"
    "isOpen g \<longrightarrow> canExpand g" "\<not> refresh_due g" "\<not> auto_due g"
    "seen_hasDesc g = hasDesc g" "seen_allow g = allowExpand g"
    "seen_exiting g = p_exiting (props g)" "seen_applied g = applied g"
  using assms quiescent_key [of g] quiescent_seen [of g] by (simp_all add: good_def)

lemma props_step_inv:
  assumes "good g" and "controlled_props p'"
  shows "micro_inv (isOpen g) (g\<lparr> props := p' \<rparr>)"
proof -
  note g = good_parts [OF assms(1)]
  define t where "t = g\<lparr> props := p' \<rparr>"
  have f: "props t = p'" "view t = view g" "applied t = applied g"
    "isExpanded t = isExpanded g" "lastRefreshKey t = lastRefreshKey g"
    "pendingView t = pendingView g" "seenRefresh t = seenRefresh g" "seenAuto t = seenAuto g"
    "timeouts t = timeouts g" "autoExpandTimer t = autoExpandTimer g"
    by (simp_all add: t_def)
  have d: "hasDesc t = hasDesc g" "isLoading t = isLoading g" "isOpen t = isOpen g"
    by (simp_all add: hasDesc_def isLoading_def isOpen_def f)
  have sn: "seen_hasDesc t = seen_hasDesc g" "seen_allow t = seen_allow g"
    "seen_exiting t = seen_exiting g" "seen_applied t = seen_applied g"
    by (simp_all add: seen_hasDesc_def seen_allow_def seen_exiting_def seen_applied_def f)
  have 1: "controlled t"
    using g(2) assms(2) by (simp add: controlled_def controlled_props_def f)
  have 2: "refresh_key_seen t" using g(3) by (simp add: refresh_key_seen_def f)
  have 3: "pending_ok t" using g(4) by (simp add: pending_ok_def f d)
  have 4: "applied_in_step t" using g(12) by (simp add: applied_in_step_def sn f)
  have 5: "expand_timers_ok t" using g(5) by (simp add: expand_timers_ok_def f sn)
  have 6: "open_allowed t"
  proof -
    {
      assume o: "isOpen t" and nc: "\<not> canExpand t"
      from o have og: "isOpen g" by (simp add: d)
      with g(6) have "canExpand g" by simp
      with og have "allowExpand g"
        using allowExpand_controlled [OF g(2)] by (simp add: isOpen_def)
      then have sa: "seen_allow t" using g(10) by (simp add: sn)
      have "\<not> allowExpand t" using allowExpand_controlled [OF 1] nc by simp
      with sa have "auto_due t"
        using clean_seen(2) [of t] by blast
    }
    then show ?thesis by (auto simp: open_allowed_def)
  qed
  have 7: "exiting_stays_closed (isOpen g) t" by (simp add: exiting_stays_closed_def d)
  show ?thesis
    unfolding t_def [symmetric] using 1 2 3 4 5 6 7 by (simp add: micro_inv_def)
qed

lemma micro_inv_handler:
  assumes g: "good g"
    and f: "view t = view g" "applied t = applied g" "lastRefreshKey t = lastRefreshKey g"
      "pendingView t = pendingView g" "seenRefresh t = seenRefresh g" "seenAuto t = seenAuto g"
    and sh: "timers_shrink g t" and cp: "controlled_props (props t)"
    and o: "open_allowed t" "exiting_stays_closed b t"
  shows "micro_inv b t"
proof -
  note gp = good_parts [OF g]
  have d: "hasDesc t = hasDesc g" "isLoading t = isLoading g"
    by (simp_all add: hasDesc_def isLoading_def f)
  have sn: "seen_hasDesc t = seen_hasDesc g" "seen_allow t = seen_allow g"
    "seen_exiting t = seen_exiting g" "seen_applied t = seen_applied g"
    by (simp_all add: seen_hasDesc_def seen_allow_def seen_exiting_def seen_applied_def f)
  have 1: "controlled t"
    using gp(2) cp by (simp add: controlled_def controlled_props_def f)
  have 2: "refresh_key_seen t" using gp(3) by (simp add: refresh_key_seen_def f)
  have 3: "pending_ok t" using gp(4) by (simp add: pending_ok_def f d)
  have 4: "applied_in_step t" using gp(12) by (simp add: applied_in_step_def sn f)
  have 5: "expand_timers_ok t"
    using gp(5) sh by (auto simp: expand_timers_ok_def timers_shrink_def sn)
  show ?thesis using 1 2 3 4 5 o by (simp add: micro_inv_def)
qed

lemma good_controlled_props: "good g \<Longrightarrow> controlled_props (props g)"
  by (simp add: good_def controlled_def controlled_props_def)

lemma hover_handlers_timers [simp]:
  "autoExpandTimer (handleEnter s) = autoExpandTimer s"
  "autoExpandTimer (handleLeave s) = autoExpandTimer s"
  "isExpanded (handleLeave s) = False"
  by (simp_all add: handleEnter_def handleLeave_def)

lemma enter_step_inv:
  assumes "good g" and "controlled_props p'" and "p_canExpand p' = Some True"
  shows "micro_inv True ((handleEnter g)\<lparr> props := p' \<rparr>)"
  by (rule micro_inv_handler [OF assms(1)])
    (simp_all add: assms timers_shrink_def open_allowed_def exiting_stays_closed_def
      canExpand_def)

lemma leave_step_inv:
  assumes "good g" and "controlled_props p'"
  shows "micro_inv b ((handleLeave g)\<lparr> props := p' \<rparr>)"
  by (rule micro_inv_handler [OF assms(1)])
    (simp_all add: assms timers_shrink_def open_allowed_def exiting_stays_closed_def
      isOpen_def)

lemma applied_pending_inv:
  assumes g: "good g" and p: "pendingView g = Some (k, v)"
    and f: "props t = props g" "view t = v" "applied t = Some k" "pendingView t = None"
      "isExpanded t = isExpanded g" "lastRefreshKey t = lastRefreshKey g"
      "seenRefresh t = seenRefresh g" "seenAuto t = seenAuto g"
    and sh: "timers_shrink g t"
  shows "micro_inv (isOpen g) t"
proof -
  note gp = good_parts [OF g]
  from gp(4) p have pk: "lastRefreshKey g = Some k" "hasDesc g" "\<not> isLoading g"
    by (simp_all add: pending_ok_def)
  have sn: "seen_hasDesc t = seen_hasDesc g" "seen_allow t = seen_allow g"
    "seen_exiting t = seen_exiting g" "seen_applied t = seen_applied g"
    by (simp_all add: seen_hasDesc_def seen_allow_def seen_exiting_def seen_applied_def f)
  have 1: "controlled t" using gp(2) by (simp add: controlled_def f)
  have 2: "refresh_key_seen t" using gp(3) by (simp add: refresh_key_seen_def f)
  have 3: "pending_ok t" by (simp add: pending_ok_def f pk)
  have 4: "applied_in_step t" using gp(7) by (simp add: applied_in_step_def refresh_due_def f)
  have 5: "expand_timers_ok t"
    using gp(5) sh by (auto simp: expand_timers_ok_def timers_shrink_def sn)
  have og: "isOpen t \<longrightarrow> isOpen g" using pk by (simp add: isOpen_def f)
  have 6: "open_allowed t" using og gp(6) by (auto simp: open_allowed_def canExpand_def f)
  have 7: "exiting_stays_closed (isOpen g) t" using og by (auto simp: exiting_stays_closed_def)
  show ?thesis using 1 2 3 4 5 6 7 by (simp add: micro_inv_def)
qed

lemma pointer_timers [simp]:
  "timers_shrink s (handlePointerDown y b s)" "timers_shrink s (onMove y s)"
  "timers_shrink s (onUp y s)"
  by (simp_all add: timers_shrink_def handlePointerDown_def onMove_def onUp_def Let_def
      split: option.split)

lemma frame_fires_timers [simp]: "timers_shrink s (frame_fires h s)"
  by (simp add: timers_shrink_def frame_fires_def Let_def
      split: option.split prod.split frame_cb.split)

lemma resized_timers [simp]:
  "timers_shrink s (pill_resized w pd s)" "timers_shrink s (content_resized h s)"
  by (simp_all add: timers_shrink_def pill_resized_def content_resized_def Let_def
      requestAnimationFrame_def cancelAnimationFrame_def)

lemma unchanged_inv:
  assumes "good g" and "logic_state t = logic_state g" and "timers_shrink g t"
  shows "micro_inv (isOpen g) t"
  by (rule micro_inv_cong [OF assms(2,3) good_micro [OF assms(1)]])

lemma transition_end_inv:
  assumes g: "good g"
  shows "micro_inv (isOpen g) (handleTransitionEnd pn g)"
proof (cases "(pn = ''height'' \<or> pn = ''transform'') \<and> \<not> isOpen g \<and> pendingView g \<noteq> None")
  case False
  then have "handleTransitionEnd pn g = g"
    by (auto simp: handleTransitionEnd_def)
  then show ?thesis using good_micro [OF g] by simp
next
  case True
  then obtain k v where p: "pendingView g = Some (k, v)" by auto
  define g1 where "g1 = (if swapTimer g \<noteq> None
      then (clearTimer (swapTimer g) g)\<lparr> swapTimer := None \<rparr> else g)"
  have e: "handleTransitionEnd pn g = apply_pending g1"
    using True by (auto simp: handleTransitionEnd_def Let_def g1_def)
  have f1: "pendingView g1 = Some (k, v)" "props g1 = props g" "isExpanded g1 = isExpanded g"
    "lastRefreshKey g1 = lastRefreshKey g" "seenRefresh g1 = seenRefresh g"
    "seenAuto g1 = seenAuto g" "timeouts (apply_pending g1) = timeouts g1"
    by (simp_all add: g1_def p)
  have sh1: "timers_shrink g g1"
    by (auto simp: g1_def timers_shrink_def clearTimer_def split: option.splits)
  have sh: "timers_shrink g (apply_pending g1)"
    using sh1 f1(1) by (auto simp: timers_shrink_def apply_pending_def)
  show ?thesis
    unfolding e
    by (rule applied_pending_inv [OF g p _ _ _ _ _ _ _ _ sh])
      (simp_all add: apply_pending_Some [OF f1(1)] f1)
qed

lemma timeout_inv:
  assumes g: "good g"
  shows "micro_inv (isOpen g) (timeout_fires h g)"
proof (rule timeout_fires_cases [of h g])
  assume "timeout_fires h g = g"
  then show ?thesis using good_micro [OF g] by simp
next
  fix d
  assume e: "timeout_fires h g =
      header_exit_cb (g\<lparr> timeouts := filter (\<lambda>e. fst e \<noteq> h) (timeouts g) \<rparr>)"
  show ?thesis
    unfolding e
    by (rule unchanged_inv [OF g]) (auto simp: timers_shrink_def header_exit_cb_def logic_state_def)
next
  fix d
  assume fd: "find (\<lambda>x. fst x = h) (timeouts g) = Some (h, d, AutoExpand)"
    and e: "timeout_fires h g =
      g\<lparr> timeouts := filter (\<lambda>e. fst e \<noteq> h) (timeouts g), isExpanded := True \<rparr>"
  note gp = good_parts [OF g]
  from fd have "(h, d, AutoExpand) \<in> set (timeouts g)"
    by (auto simp: find_Some_iff)
  with gp(5) have s: "seen_hasDesc g" "seen_allow g" "\<not> seen_exiting g"
    by (auto simp: expand_timers_ok_def)
  then have a: "allowExpand g" "\<not> p_exiting (props g)" using gp(10,11) by simp_all
  then have ce: "canExpand g" using allowExpand_controlled [OF gp(2)] by simp
  show ?thesis
    unfolding e
    by (rule micro_inv_handler [OF g])
      (use ce a in \<open>auto simp: timers_shrink_def open_allowed_def exiting_stays_closed_def
        canExpand_def good_controlled_props [OF g]\<close>)
next
  fix d
  assume e: "timeout_fires h g =
      g\<lparr> timeouts := filter (\<lambda>e. fst e \<noteq> h) (timeouts g), isExpanded := False \<rparr>"
  show ?thesis
    unfolding e
    by (rule micro_inv_handler [OF g])
      (auto simp: timers_shrink_def open_allowed_def exiting_stays_closed_def isOpen_def
        good_controlled_props [OF g])
next
  fix d
  assume e: "timeout_fires h g =
      swap_cb (g\<lparr> timeouts := filter (\<lambda>e. fst e \<noteq> h) (timeouts g) \<rparr>)"
  define g1 where "g1 = g\<lparr> timeouts := filter (\<lambda>e. fst e \<noteq> h) (timeouts g) \<rparr>"
  define g2 where "g2 = g1\<lparr> swapTimer := None \<rparr>"
  have e2: "timeout_fires h g = apply_pending g2"
    by (simp add: e swap_cb_def g1_def g2_def)
  show ?thesis
  proof (cases "pendingView g")
    case None
    then have "apply_pending g2 = g2" by (simp add: g2_def g1_def)
    then show ?thesis
      unfolding e2
      using unchanged_inv [OF g, of g2]
      by (simp add: g2_def g1_def timers_shrink_def logic_state_def)
  next
    case (Some kv)
    obtain k v where kv: "kv = (k, v)" by (cases kv)
    have p: "pendingView g = Some (k, v)" using Some kv by simp
    have p2: "pendingView g2 = Some (k, v)" using p by (simp add: g2_def g1_def)
    have sh: "timers_shrink g (apply_pending g2)"
      by (auto simp: timers_shrink_def g2_def g1_def)
    show ?thesis
      unfolding e2
      by (rule applied_pending_inv [OF g p _ _ _ _ _ _ _ _ sh])
        (simp_all add: apply_pending_Some [OF p2], simp_all add: g2_def g1_def)
  qed
qed

lemma dom_step_inv:
  assumes "good g" and "dom_event e"
  shows "micro_inv (isOpen g) (handle_event e g)"
proof (cases e)
  case (TransitionEnd pn)
  then show ?thesis using transition_end_inv [OF assms(1)] by simp
next
  case (Timeout h)
  then show ?thesis using timeout_inv [OF assms(1)] by simp
next
  case (PointerMove y)
  show ?thesis
    unfolding PointerMove
    by (cases "swipeListening g") (simp_all add: unchanged_inv [OF assms(1)] good_micro [OF assms(1)])
next
  case (PointerUp y)
  show ?thesis
    unfolding PointerUp
    by (cases "swipeListening g") (simp_all add: unchanged_inv [OF assms(1)] good_micro [OF assms(1)])
qed (use assms in \<open>simp_all add: unchanged_inv\<close>)

subsection \<open>After the flush no watcher is due\<close>

lemma quiescent_alt:
  "quiescent s =
     (refresh_clean s \<and> \<not> auto_due s \<and> headerPrev s = seenHeaderPrev s \<and>
      fst (headerCurrent s) = seenHeaderKey s \<and> hasDesc s = seenHasDesc s)"
  by (simp add: quiescent_def refresh_clean_def auto_due_def)

lemma refresh_run_not_due:
  assumes "refresh_key_seen s"
  shows "\<not> refresh_due (run_watcher RefreshWatcher s)"
proof (cases "refresh_sources s = seenRefresh s")
  case True
  then have "fst (snd (seenRefresh s)) = p_refreshKey (props s)"
    by (simp add: refresh_sources_def flip: True)
  with assms True show ?thesis by (simp add: refresh_due_def refresh_key_seen_def)
next
  case False
  then show ?thesis by (simp add: refresh_due_def)
qed

lemma auto_run_keeps_key:
  "refresh_due (run_watcher AutoWatcher s) = refresh_due s"
  "controlled (run_watcher AutoWatcher s) = controlled s"
  by (simp_all add: refresh_due_def controlled_def)

lemma refresh_run_controlled:
  "controlled s \<Longrightarrow> controlled (run_watcher RefreshWatcher s)"
  by (auto simp: controlled_def)

lemma refresh_rerun:
  assumes "controlled s" and "\<not> refresh_due s"
  shows "refresh_clean (run_watcher RefreshWatcher s)"
    and "auto_due (run_watcher RefreshWatcher s) = auto_due s"
proof -
  from assms obtain k where k: "p_refreshKey (props s) = Some k" "lastRefreshKey s = Some k"
    by (auto simp: controlled_def refresh_due_def)
  have e: "run_watcher RefreshWatcher s =
      (if refresh_sources s = seenRefresh s then s else s\<lparr> seenRefresh := refresh_sources s \<rparr>)"
    using k by simp
  define t where "t = s\<lparr> seenRefresh := refresh_sources s \<rparr>"
  have f: "props t = props s" "view t = view s" "applied t = applied s"
    "isExpanded t = isExpanded s" "seenAuto t = seenAuto s" "seenRefresh t = refresh_sources s"
    by (simp_all add: t_def)
  note d = derived_eq [OF f(1,2)]
  have o: "isOpen t = isOpen s" by (simp add: isOpen_def d f)
  have rs: "refresh_sources t = refresh_sources s" by (simp add: refresh_sources_def o f)
  have au: "auto_sources t = auto_sources s" by (simp add: auto_sources_def d f)
  show "refresh_clean (run_watcher RefreshWatcher s)"
    unfolding e t_def [symmetric] by (simp add: refresh_clean_def rs f)
  show "auto_due (run_watcher RefreshWatcher s) = auto_due s"
    unfolding e t_def [symmetric] by (simp add: auto_due_def au f)
qed

lemma peripheral_clean:
  assumes "w \<noteq> RefreshWatcher" and "w \<noteq> AutoWatcher"
  shows "refresh_clean (run_watcher w s) = refresh_clean s"
    and "auto_due (run_watcher w s) = auto_due s"
  using logic_state_fields [OF run_watcher_peripheral [OF assms, of s]]
  by (simp_all add: refresh_clean_def auto_due_def del: run_watcher.simps)

lemma header_fields [simp]:
  "headerPrev (header_prev_cb s) = headerPrev s"
  "headerCurrent (header_prev_cb s) = headerCurrent s"
  "seenHeaderKey (header_prev_cb s) = seenHeaderKey s"
  "seenHasDesc (header_prev_cb s) = seenHasDesc s"
  "seenHeaderPrev (header_prev_cb s) = seenHeaderPrev s"
  "hasDesc (header_prev_cb s) = hasDesc s"
  by (simp_all add: header_prev_cb_def Let_def setTimeout_def clearTimer_def hasDesc_def
      split: option.split)

lemma measure_header_fields [simp]:
  "headerPrev (measurePillWidth s) = headerPrev s"
  "headerCurrent (measurePillWidth s) = headerCurrent s"
  "seenHeaderKey (measurePillWidth s) = seenHeaderKey s"
  "seenHasDesc (measurePillWidth s) = seenHasDesc s"
  "seenHeaderPrev (measurePillWidth s) = seenHeaderPrev s"
  "headerPrev (measureContentHeight s) = headerPrev s"
  "headerCurrent (measureContentHeight s) = headerCurrent s"
  "seenHeaderKey (measureContentHeight s) = seenHeaderKey s"
  "seenHasDesc (measureContentHeight s) = seenHasDesc s"
  "seenHeaderPrev (measureContentHeight s) = seenHeaderPrev s"
  "headerPrev (cancelAnimationFrame h s) = headerPrev s"
  "headerCurrent (cancelAnimationFrame h s) = headerCurrent s"
  "seenHeaderKey (cancelAnimationFrame h s) = seenHeaderKey s"
  "seenHasDesc (cancelAnimationFrame h s) = seenHasDesc s"
  "seenHeaderPrev (cancelAnimationFrame h s) = seenHeaderPrev s"
  by (simp_all add: measurePillWidth_def measureContentHeight_def cancelAnimationFrame_def
      Let_def)

lemma observer_header_fields [simp]:
  "headerPrev (setupPillObserver s) = headerPrev s"
  "headerCurrent (setupPillObserver s) = headerCurrent s"
  "seenHeaderKey (setupPillObserver s) = seenHeaderKey s"
  "seenHasDesc (setupPillObserver s) = seenHasDesc s"
  "seenHeaderPrev (setupPillObserver s) = seenHeaderPrev s"
  "hasDesc (setupPillObserver s) = hasDesc s"
  "headerPrev (setupContentObserver s) = headerPrev s"
  "headerCurrent (setupContentObserver s) = headerCurrent s"
  "seenHeaderKey (setupContentObserver s) = seenHeaderKey s"
  "seenHasDesc (setupContentObserver s) = seenHasDesc s"
  "seenHeaderPrev (setupContentObserver s) = seenHeaderPrev s"
  "hasDesc (setupContentObserver s) = hasDesc s"
  by (simp_all add: logic_state_fields [OF logic_setupPillObserver]
      logic_state_fields [OF logic_setupContentObserver])
    (simp_all add: setupPillObserver_def setupContentObserver_def Let_def)

lemma settle_quiescent:
  assumes "controlled s" and "refresh_key_seen s"
  shows "quiescent (fold run_watcher watcher_order s)"
proof -
  define s1 where "s1 = run_watcher RefreshWatcher s"
  define s2 where "s2 = run_watcher AutoWatcher s1"
  define s3 where "s3 = run_watcher RefreshWatcher s2"
  define s4 where "s4 = run_watcher HeaderPrevWatcher s3"
  define s5 where "s5 = run_watcher HeaderKeyWatcher s4"
  define s6 where "s6 = run_watcher HasDescWatcher s5"
  have e: "fold run_watcher watcher_order s = s6"
    by (simp add: watcher_order_def s6_def s5_def s4_def s3_def s2_def s1_def
        del: run_watcher.simps)
  have c1: "controlled s1" "\<not> refresh_due s1"
    unfolding s1_def using assms
    by (simp_all add: refresh_run_controlled refresh_run_not_due del: run_watcher.simps)
  have c2: "controlled s2" "\<not> refresh_due s2" "\<not> auto_due s2"
    unfolding s2_def using c1
    by (simp_all add: auto_run_keeps_key auto_run_clean del: run_watcher.simps)
  have c3: "refresh_clean s3" "\<not> auto_due s3"
    unfolding s3_def using refresh_rerun [OF c2(1,2)] c2(3) by simp_all
  have c4: "refresh_clean s4" "\<not> auto_due s4" "headerPrev s4 = seenHeaderPrev s4"
    unfolding s4_def using c3 by (simp_all add: peripheral_clean del: run_watcher.simps) simp
  have c5: "refresh_clean s5" "\<not> auto_due s5" "headerPrev s5 = seenHeaderPrev s5"
    "fst (headerCurrent s5) = seenHeaderKey s5"
    unfolding s5_def using c4
    by (simp_all add: peripheral_clean del: run_watcher.simps) simp_all
  have c6: "refresh_clean s6" "\<not> auto_due s6" "headerPrev s6 = seenHeaderPrev s6"
    "fst (headerCurrent s6) = seenHeaderKey s6" "hasDesc s6 = seenHasDesc s6"
    unfolding s6_def using c5
    by (simp_all add: peripheral_clean del: run_watcher.simps) simp_all
  show ?thesis unfolding e using c6 by (simp add: quiescent_alt)
qed

subsection \<open>Steps of one instance\<close>

text \<open>
  A step of an instance (handler, flush, render) leads from a \<open>good\<close> state to a \<open>good\<close>
  state, and an exiting toast is open after the step only if it was open before (or the
  pointer has just entered it).
\<close>

lemma run_watcher_props [simp]: "props (run_watcher w s) = props s"
  by (cases w)
    (simp_all add: logic_state_fields [OF logic_setupPillObserver]
      logic_state_fields [OF logic_setupContentObserver]
      logic_state_fields [OF logic_header_prev_cb])

lemma fold_watchers_props [simp]: "props (fold run_watcher ws s) = props s"
  by (induction ws arbitrary: s) (simp_all del: run_watcher.simps)

lemma render_quiescent: "quiescent (render s) = quiescent s"
proof -
  have f: "props (render s) = props s" "view (render s) = view s"
    "isExpanded (render s) = isExpanded s" "applied (render s) = applied s"
    "seenRefresh (render s) = seenRefresh s" "seenAuto (render s) = seenAuto s"
    "headerPrev (render s) = headerPrev s" "seenHeaderPrev (render s) = seenHeaderPrev s"
    "headerCurrent (render s) = headerCurrent s" "seenHeaderKey (render s) = seenHeaderKey s"
    "seenHasDesc (render s) = seenHasDesc s"
    by (simp_all add: render_def expanded_def)
  note d = derived_eq [OF f(1,2)]
  have o: "isOpen (render s) = isOpen s" by (simp add: isOpen_def d f)
  show ?thesis
    by (simp add: quiescent_def refresh_sources_def auto_sources_def f d o)
qed

lemma finish_good:
  assumes "micro_inv b s"
  shows "good (finish ws s)"
    and "p_exiting (props (finish ws s)) \<and> isOpen (finish ws s) \<longrightarrow> b"
    and "props (finish ws s) = props s"
proof -
  define s1 where "s1 = fold run_watcher ws s"
  define s2 where "s2 = fold run_watcher watcher_order s1"
  have e: "finish ws s = render s2" by (simp add: finish_def flush_def s2_def s1_def)
  have m1: "micro_inv b s1" unfolding s1_def by (rule fold_watchers_inv [OF assms])
  have m2: "micro_inv b s2" unfolding s2_def by (rule fold_watchers_inv [OF m1])
  have q2: "quiescent s2"
    unfolding s2_def using m1 by (intro settle_quiescent) (simp_all add: micro_inv_def)
  have m3: "micro_inv b (render s2)" by (rule render_inv [OF m2])
  have q3: "quiescent (render s2)" using q2 by (simp add: render_quiescent)
  show "good (finish ws s)" unfolding e by (rule micro_good(1) [OF m3 q3])
  show "p_exiting (props (finish ws s)) \<and> isOpen (finish ws s) \<longrightarrow> b"
    unfolding e by (rule micro_good(2) [OF m3 q3])
  show "props (finish ws s) = props s"
    unfolding e by (simp add: s2_def s1_def)
qed

lemma setup_inv:
  assumes "controlled_props p"
  shows "micro_inv b (sileo_setup p)"
proof -
  define s0 :: sileo where "s0 =
     \<lparr> props = p, view = next_view p, applied = p_refreshKey p, isExpanded = False,
       ready = False, pillWidth = 0, contentHeight = 0, headerExitTimer = None,
       autoExpandTimer = None, autoCollapseTimer = None, swapTimer = None,
       lastRefreshKey = p_refreshKey p, pendingView = None, headerPadding = None,
       frozenExpanded = HEIGHT * MIN_EXPAND_RATIO, pointerStartY = None,
       headerCurrent = ((p_state p, Some (resolvedTitle p)), next_view p),
       headerPrev = None, pillRo = None, pillRafId = 0, contentRo = None,
       contentRafId = 0, transform = None, swipeListening = False, timeouts = [],
       frames = [], nextId = 1, domMounted = False, unmounted = False,
       dom_scrollWidth = 0, dom_padding = 0, dom_scrollHeight = 0, dismissCalls = 0,
       seenRefresh = (False, p_refreshKey p, next_view p),
       seenAuto = (None, None, False, False, False, None),
       seenHeaderPrev = None,
       seenHeaderKey = (p_state p, Some (resolvedTitle p)),
       seenHasDesc = False \<rparr>"
  define s1 where "s1 = s0\<lparr> seenRefresh := refresh_sources s0, seenHasDesc := hasDesc s0 \<rparr>"
  have e: "sileo_setup p = auto_cb (s1\<lparr> seenAuto := auto_sources s1 \<rparr>)"
    by (simp add: sileo_setup_def Let_def s1_def s0_def)
  have f: "props s1 = p" "lastRefreshKey s1 = p_refreshKey p" "applied s1 = p_refreshKey p"
    "pendingView s1 = None" "timeouts s1 = []"
    "fst (snd (seenRefresh s1)) = p_refreshKey p"
    by (simp_all add: s1_def s0_def refresh_sources_def)
  show ?thesis
    unfolding e
    using assms
    by (intro auto_cb_inv)
      (simp_all add: controlled_def controlled_props_def refresh_key_seen_def pending_ok_def f)
qed

lemma mount_inv:
  assumes "controlled_props p"
  shows "micro_inv b (sileo_onMounted w pd sh (sileo_setup p))"
proof -
  have "timers_shrink (sileo_setup p) (sileo_onMounted w pd sh (sileo_setup p))"
    by (simp add: timers_shrink_def sileo_onMounted_def Let_def requestAnimationFrame_def)
  from micro_inv_cong [OF logic_onMounted this setup_inv [OF assms]]
  show ?thesis .
qed

lemma machine_props_step:
  assumes "good g" and "controlled_props p'"
  shows "good (finish ws (g\<lparr> props := p' \<rparr>))"
    and "p_exiting p' \<and> isOpen (finish ws (g\<lparr> props := p' \<rparr>)) \<longrightarrow> isOpen g"
    and "props (finish ws (g\<lparr> props := p' \<rparr>)) = p'"
  using finish_good [OF props_step_inv [OF assms], of ws] by simp_all

lemma machine_enter_step:
  assumes "good g" and "controlled_props p'" and "p_canExpand p' = Some True"
  shows "good (finish ws ((handleEnter g)\<lparr> props := p' \<rparr>))"
    and "props (finish ws ((handleEnter g)\<lparr> props := p' \<rparr>)) = p'"
  using finish_good [OF enter_step_inv [OF assms], of ws] by simp_all

lemma machine_leave_step:
  assumes "good g" and "controlled_props p'"
  shows "good (finish ws ((handleLeave g)\<lparr> props := p' \<rparr>))"
    and "p_exiting p' \<longrightarrow> \<not> isOpen (finish ws ((handleLeave g)\<lparr> props := p' \<rparr>))"
    and "props (finish ws ((handleLeave g)\<lparr> props := p' \<rparr>)) = p'"
  using finish_good [OF leave_step_inv [OF assms, of False], of ws] by simp_all

lemma handle_dom_props: "dom_event e \<Longrightarrow> props (handle_event e s) = props s"
  by (cases e)
    (simp_all add: logic_state_fields [OF logic_handlePointerDown]
      logic_state_fields [OF logic_onMove] logic_state_fields [OF logic_onUp]
      logic_state_fields [OF logic_frame_fires] logic_state_fields [OF logic_pill_resized]
      logic_state_fields [OF logic_content_resized])

lemma machine_dom_step:
  assumes "good g" and "dom_event e"
  shows "good (finish ws (handle_event e g))"
    and "p_exiting (props g) \<and> isOpen (finish ws (handle_event e g)) \<longrightarrow> isOpen g"
    and "props (finish ws (handle_event e g)) = props g"
  using finish_good [OF dom_step_inv [OF assms], of ws] handle_dom_props [OF assms(2), of g]
  by simp_all

lemma machine_mount:
  assumes "controlled_props p"
  shows "good (finish ws (sileo_onMounted w pd sh (sileo_setup p)))"
    and "p_exiting p \<longrightarrow> \<not> isOpen (finish ws (sileo_onMounted w pd sh (sileo_setup p)))"
    and "props (finish ws (sileo_onMounted w pd sh (sileo_setup p))) = p"
proof -
  have pp: "props (sileo_onMounted w pd sh (sileo_setup p)) = p"
    by (simp add: logic_state_fields [OF logic_onMounted] sileo_setup_def Let_def)
  show "good (finish ws (sileo_onMounted w pd sh (sileo_setup p)))"
    "p_exiting p \<longrightarrow> \<not> isOpen (finish ws (sileo_onMounted w pd sh (sileo_setup p)))"
    "props (finish ws (sileo_onMounted w pd sh (sileo_setup p))) = p"
    using finish_good [OF mount_inv [OF assms, of False], of ws] pp by simp_all
qed

subsection \<open>The adapter's own invariant\<close>

lemma render_list_map:
  "render_list env a pos old items =
     map (\<lambda>item. (child_key pos item, render_child env a old (child_key pos item) item)) items"
  by (induction items) simp_all

lemma render_children_map:
  "render_children env s =
     s\<lparr> children :=
          map (\<lambda>item. (child_key (position s) item,
                 render_child env (adapter s) (children s) (child_key (position s) item) item))
            (toasts (adapter s)) \<rparr>"
  by (simp add: render_children_def render_list_map)

lemma update_list_map:
  "update_list k f cs = map (\<lambda>c. if fst c = k then (fst c, f (snd c)) else c) cs"
  by (induction cs) simp_all

lemma update_child_map:
  "update_child k f s =
     s\<lparr> children := map (\<lambda>c. if fst c = k then (fst c, f (snd c)) else c) (children s) \<rparr>"
  by (simp add: update_child_def update_list_map)

lemma latest_from_end_None:
  "latest_from_end ts = None \<longleftrightarrow> (\<forall>t \<in> set ts. item_exiting t)"
  by (induction ts) auto

lemma latest_None: "latest ts = None \<longleftrightarrow> (\<forall>t \<in> set ts. item_exiting t)"
  by (simp add: latest_def latest_from_end_None)

lemma schedule_fields [simp]:
  "toasts (schedule dd items s) = toasts s"
  "isHovering (schedule dd items s) = isHovering s"
  "activeId (schedule dd items s) = activeId s"
  "latestId (schedule dd items s) = latestId s"
  "listening (schedule dd items s) = listening s"
  by (simp_all add: schedule_def)

lemma clearAllTimers_fields [simp]:
  "toasts (clearAllTimers s) = toasts s"
  "isHovering (clearAllTimers s) = isHovering s"
  "activeId (clearAllTimers s) = activeId s"
  "latestId (clearAllTimers s) = latestId s"
  "listening (clearAllTimers s) = listening s"
  by (simp_all add: clearAllTimers_def)

lemma manage_timers_fields [simp]:
  "toasts (manage_timers dd items s) = items"
  "isHovering (manage_timers dd items s) = isHovering s"
  "activeId (manage_timers dd items s) = activeId s"
  "latestId (manage_timers dd items s) = latestId s"
  "listening (manage_timers dd items s) = listening s"
  by (simp_all add: manage_timers_def Let_def)

lemma adapter_inv_init: "adapter_inv toaster_init"
  by (simp add: adapter_inv_def toaster_init_def latest_def)

lemma adapter_inv_set_toasts:
  "adapter_inv a \<Longrightarrow> distinct (map item_id ts) \<Longrightarrow> adapter_inv (set_toasts dd ts a)"
  by (auto simp: adapter_inv_def set_toasts_def track_latest_def)

lemma adapter_inv_onMounted:
  "adapter_inv a \<Longrightarrow> distinct (map item_id ts) \<Longrightarrow> adapter_inv (onMounted dd ts a)"
  unfolding onMounted_def by (rule adapter_inv_set_toasts) (simp_all add: adapter_inv_def)

lemma adapter_inv_enter: "adapter_inv a \<Longrightarrow> adapter_inv (enter i a)"
  by (simp add: adapter_inv_def enter_def Let_def)

lemma adapter_inv_leave: "adapter_inv a \<Longrightarrow> adapter_inv (leave dd a)"
  by (auto simp: adapter_inv_def leave_def Let_def)

lemma adapter_inv_timer_fires: "adapter_inv a \<Longrightarrow> adapter_inv (timer_fires h a)"
  by (simp add: adapter_inv_def timer_fires_def split: option.split)

lemma adapter_inv_onUnmounted: "adapter_inv a \<Longrightarrow> adapter_inv (onUnmounted a)"
  by (simp add: adapter_inv_def onUnmounted_def)

lemma enter_activeId [simp]: "activeId (enter i a) = Some i"
  by (simp add: enter_def Let_def)

lemma enter_toasts [simp]: "toasts (enter i a) = toasts a"
  by (simp add: enter_def Let_def)

lemma leave_toasts [simp]: "toasts (leave dd a) = toasts a"
  by (simp add: leave_def Let_def)

lemma timer_fires_fields [simp]:
  "toasts (timer_fires h a) = toasts a" "activeId (timer_fires h a) = activeId a"
  by (simp_all add: timer_fires_def split: option.split)

lemma child_props_controlled [simp]: "controlled_props (child_props a t)"
  by (simp add: controlled_props_def child_props_def)

lemma child_props_exiting [simp]: "p_exiting (child_props a t) = item_exiting t"
  by (simp add: child_props_def)

lemma child_props_canExpand:
  "p_canExpand (child_props a t) = Some True \<longleftrightarrow> permitted a (item_id t)"
  by (simp add: child_props_def permitted_def)

lemma child_key_id [simp]: "snd (child_key pos t) = item_id t"
  by (simp add: child_key_def)

lemma filter_le_one:
  assumes "distinct (map f xs)" and "\<forall>x \<in> set xs. P x \<longrightarrow> f x = c"
  shows "length (filter P xs) \<le> 1"
  using assms
proof (induction xs)
  case Nil then show ?case by simp
next
  case (Cons x xs)
  show ?case
  proof (cases "P x")
    case False with Cons show ?thesis by simp
  next
    case True
    with Cons.prems have "f x = c" by simp
    with Cons.prems have "\<forall>y \<in> set xs. \<not> P y" by (auto simp: image_iff)
    then have "filter P xs = []" by (simp add: filter_empty_conv)
    with True show ?thesis by simp
  qed
qed

lemma length_filter_card:
  assumes "distinct (map f xs)"
  shows "length (filter P xs) = card (f ` {x \<in> set xs. P x})"
proof -
  have d: "distinct (map f (filter P xs))" using assms by (rule distinct_map_filter)
  then have "length (filter P xs) = card (set (map f (filter P xs)))"
    by (metis distinct_card length_map)
  then show ?thesis by simp
qed

lemma filter_le_filter:
  assumes d': "distinct (map f ys)" and d: "distinct (map f xs)"
    and sub: "\<forall>y \<in> set ys. Q y \<longrightarrow> (\<exists>x \<in> set xs. P x \<and> f x = f y)"
  shows "length (filter Q ys) \<le> length (filter P xs)"
proof -
  have "f ` {y \<in> set ys. Q y} \<subseteq> f ` {x \<in> set xs. P x}"
  proof
    fix k assume "k \<in> f ` {y \<in> set ys. Q y}"
    then obtain y where y: "y \<in> set ys" "Q y" "k = f y" by auto
    with sub obtain x where "x \<in> set xs" "P x" "f x = f y" by blast
    with y show "k \<in> f ` {x \<in> set xs. P x}" by (auto simp: image_iff intro!: bexI [of _ x])
  qed
  then have "card (f ` {y \<in> set ys. Q y}) \<le> card (f ` {x \<in> set xs. P x})"
    by (intro card_mono) simp_all
  then show ?thesis by (simp add: length_filter_card [OF d'] length_filter_card [OF d])
qed

subsection \<open>The invariant of the adapter with its toasts\<close>

text \<open>
  With an active toast, every open child is permitted to expand, so it is the active one,
  and ids are distinct. With no active toast every toast is exiting, and the open
  children after a step were open before it.
\<close>

lemma good_open_canExpand: "good g \<Longrightarrow> isOpen g \<Longrightarrow> p_canExpand (props g) = Some True"
  by (simp add: good_def canExpand_def)

lemma child_ok_open:
  assumes "child_ok s c" and "isOpen (snd c)"
  shows "permitted (adapter s) (snd (fst c))"
proof -
  from assms(1) obtain t where t: "child_key (position s) t = fst c"
    "props (snd c) = child_props (adapter s) t" and g: "good (snd c)"
    by (auto simp: child_ok_def)
  from good_open_canExpand [OF g assms(2)] t(2)
  have "permitted (adapter s) (item_id t)" by (simp add: child_props_canExpand)
  moreover have "snd (fst c) = item_id t" using t(1) [symmetric] by simp
  ultimately show ?thesis by simp
qed

lemma child_ok_exiting:
  assumes "child_ok s c" and "adapter_inv (adapter s)" and "activeId (adapter s) = None"
  shows "p_exiting (props (snd c))"
proof -
  from assms(1) obtain t where t: "t \<in> set (toasts (adapter s))"
    "props (snd c) = child_props (adapter s) t"
    by (auto simp: child_ok_def)
  from assms(2,3) have "latest (toasts (adapter s)) = None" by (simp add: adapter_inv_def)
  with t(1) have "item_exiting t" by (simp add: latest_None)
  with t(2) show ?thesis by simp
qed

lemma one_open:
  assumes d': "distinct (map (\<lambda>c. snd (fst c)) (children s'))"
    and ok: "\<forall>c \<in> set (children s'). child_ok s' c"
    and d: "distinct (map (\<lambda>c. snd (fst c)) cs)"
    and one: "length (filter (\<lambda>c. isOpen (snd c)) cs) \<le> 1"
    and sub: "activeId (adapter s') = None \<Longrightarrow>
       \<forall>c' \<in> set (children s'). isOpen (snd c') \<longrightarrow>
          (\<exists>c \<in> set cs. isOpen (snd c) \<and> fst c = fst c')"
  shows "length (open_toasts s') \<le> 1"
proof (cases "activeId (adapter s')")
  case None
  have "\<forall>c' \<in> set (children s'). isOpen (snd c') \<longrightarrow>
      (\<exists>c \<in> set cs. isOpen (snd c) \<and> snd (fst c) = snd (fst c'))"
    using sub [OF None] by force
  from filter_le_filter [OF d' d this] one
  show ?thesis by (simp add: open_toasts_def)
next
  case (Some x)
  have "\<forall>c \<in> set (children s'). isOpen (snd c) \<longrightarrow> snd (fst c) = x"
  proof (intro ballI impI)
    fix c assume c: "c \<in> set (children s')" "isOpen (snd c)"
    from child_ok_open [OF bspec [OF ok c(1)] c(2)] Some
    show "snd (fst c) = x" by (simp add: permitted_def)
  qed
  from filter_le_one [OF d' this] show ?thesis by (simp add: open_toasts_def)
qed

lemma render_child_facts:
  assumes "\<And>g. map_of old k = Some g \<Longrightarrow> micro_inv (B g) (g\<lparr> props := child_props a t \<rparr>)"
  shows "good (render_child env a old k t)"
    and "props (render_child env a old k t) = child_props a t"
    and "item_exiting t \<and> isOpen (render_child env a old k t) \<longrightarrow>
           (\<exists>g. map_of old k = Some g \<and> B g)"
proof -
  show "good (render_child env a old k t)"
  proof (cases "map_of old k")
    case None
    obtain w pd sh where l: "env_layout env k = (w, pd, sh)" by (cases "env_layout env k")
    show ?thesis
      by (simp add: render_child_def None l machine_mount(1))
  next
    case (Some g)
    from finish_good(1) [OF assms [OF Some]] show ?thesis
      by (simp add: render_child_def Some)
  qed
  show "props (render_child env a old k t) = child_props a t"
  proof (cases "map_of old k")
    case None
    obtain w pd sh where l: "env_layout env k = (w, pd, sh)" by (cases "env_layout env k")
    show ?thesis
      by (simp add: render_child_def None l machine_mount(3))
  next
    case (Some g)
    from finish_good(3) [OF assms [OF Some]] show ?thesis
      by (simp add: render_child_def Some)
  qed
  show "item_exiting t \<and> isOpen (render_child env a old k t) \<longrightarrow>
           (\<exists>g. map_of old k = Some g \<and> B g)"
  proof (cases "map_of old k")
    case None
    obtain w pd sh where l: "env_layout env k = (w, pd, sh)" by (cases "env_layout env k")
    from machine_mount(2) [of "child_props a t" "env_schedule env k" w pd sh]
    show ?thesis
      by (simp add: render_child_def None l)
  next
    case (Some g)
    from finish_good(2,3) [OF assms [OF Some], of "env_schedule env k"] show ?thesis
      by (simp add: render_child_def Some)
  qed
qed

lemma render_children_inv:
  assumes a: "adapter_inv (adapter s1)"
    and d: "distinct (map (\<lambda>c. snd (fst c)) cs0)"
    and one: "length (filter (\<lambda>c. isOpen (snd c)) cs0) \<le> 1"
    and prep: "\<And>k g t. (k, g) \<in> set (children s1) \<Longrightarrow> t \<in> set (toasts (adapter s1)) \<Longrightarrow>
        child_key (position s1) t = k \<Longrightarrow>
        micro_inv (B k g) (g\<lparr> props := child_props (adapter s1) t \<rparr>) \<and>
        (B k g \<and> activeId (adapter s1) = None \<longrightarrow> (\<exists>c0 \<in> set cs0. isOpen (snd c0) \<and> fst c0 = k))"
  shows "app_inv (render_children env s1)"
proof -
  define s' where "s' = render_children env s1"
  define rc where "rc t = render_child env (adapter s1) (children s1) (child_key (position s1) t) t" for t
  have f: "adapter s' = adapter s1" "position s' = position s1"
    "children s' = map (\<lambda>t. (child_key (position s1) t, rc t)) (toasts (adapter s1))"
    by (simp_all add: s'_def render_children_map rc_def)
  have facts: "good (rc t)" "props (rc t) = child_props (adapter s1) t"
    "item_exiting t \<and> isOpen (rc t) \<longrightarrow>
       (\<exists>g. map_of (children s1) (child_key (position s1) t) = Some g \<and>
          B (child_key (position s1) t) g)"
    if t: "t \<in> set (toasts (adapter s1))" for t
    unfolding rc_def
    by (rule render_child_facts [where B = "B (child_key (position s1) t)"],
        rule conjunct1 [OF prep [OF map_of_SomeD t refl]], assumption)+
  have d': "distinct (map (\<lambda>c. snd (fst c)) (children s'))"
    using a by (simp add: f adapter_inv_def comp_def)
  have ok: "\<forall>c \<in> set (children s'). child_ok s' c"
    by (auto simp: f child_ok_def facts)
  have sub: "\<forall>c' \<in> set (children s'). isOpen (snd c') \<longrightarrow>
          (\<exists>c \<in> set cs0. isOpen (snd c) \<and> fst c = fst c')"
    if n: "activeId (adapter s') = None"
  proof (intro ballI impI)
    fix c' assume c': "c' \<in> set (children s')" "isOpen (snd c')"
    then obtain t where t: "t \<in> set (toasts (adapter s1))"
      "c' = (child_key (position s1) t, rc t)" by (auto simp: f)
    from a n have "latest (toasts (adapter s1)) = None" by (simp add: adapter_inv_def f)
    with t(1) have ex: "item_exiting t" by (simp add: latest_None)
    from facts(3) [OF t(1)] ex c'(2) t(2)
    obtain g where g: "map_of (children s1) (child_key (position s1) t) = Some g"
      "B (child_key (position s1) t) g" by auto
    from prep [OF map_of_SomeD [OF g(1)] t(1) refl] g(2) n
    show "\<exists>c \<in> set cs0. isOpen (snd c) \<and> fst c = fst c'" by (simp add: f t(2))
  qed
  have "length (open_toasts s') \<le> 1" by (rule one_open [OF d' ok d one sub])
  with a d' ok show ?thesis unfolding s'_def [symmetric] by (simp add: app_inv_def f)
qed

lemma app_inv_parts:
  assumes "app_inv s"
  shows "adapter_inv (adapter s)"
    and "distinct (map (\<lambda>c. snd (fst c)) (children s))"
    and "length (filter (\<lambda>c. isOpen (snd c)) (children s)) \<le> 1"
    and "\<And>k g. (k, g) \<in> set (children s) \<Longrightarrow> good g"
    and "\<And>c. c \<in> set (children s) \<Longrightarrow> child_ok s c"
  using assms by (auto simp: app_inv_def open_toasts_def child_ok_def)

lemma rerender_inv:
  assumes "app_inv s" and "adapter_inv a'"
  shows "app_inv (render_children env (s\<lparr> adapter := a', position := pos \<rparr>))"
proof (rule render_children_inv [where ?cs0.0 = "children s" and B = "\<lambda>k g. isOpen g"])
  note p = app_inv_parts [OF assms(1)]
  show "adapter_inv (adapter (s\<lparr> adapter := a', position := pos \<rparr>))" using assms(2) by simp
  show "distinct (map (\<lambda>c. snd (fst c)) (children s))" by (rule p(2))
  show "length (filter (\<lambda>c. isOpen (snd c)) (children s)) \<le> 1" by (rule p(3))
  fix k g t
  assume c: "(k, g) \<in> set (children (s\<lparr> adapter := a', position := pos \<rparr>))"
  then have g: "good g" using p(4) by simp
  have "micro_inv (isOpen g) (g\<lparr> props := child_props a' t \<rparr>)"
    by (rule props_step_inv [OF g]) simp
  moreover have "isOpen g \<longrightarrow> (\<exists>c0 \<in> set (children s). isOpen (snd c0) \<and> fst c0 = k)"
    using c by force
  ultimately show "micro_inv (isOpen g)
       (g\<lparr> props := child_props (adapter (s\<lparr> adapter := a', position := pos \<rparr>)) t \<rparr>) \<and>
     (isOpen g \<and> activeId (adapter (s\<lparr> adapter := a', position := pos \<rparr>)) = None \<longrightarrow>
        (\<exists>c0 \<in> set (children s). isOpen (snd c0) \<and> fst c0 = k))"
    by simp
qed

lemma update_child_fields [simp]:
  "adapter (update_child k f s) = adapter s" "position (update_child k f s) = position s"
  by (simp_all add: update_child_map)

lemma update_child_mem:
  assumes "(k', g') \<in> set (children (update_child k f s))"
  shows "\<exists>g. (k', g) \<in> set (children s) \<and> g' = (if k' = k then f g else g)"
  using assms by (auto simp: update_child_map split: if_splits)

lemma update_child_keys [simp]:
  "map (\<lambda>c. snd (fst c)) (children (update_child k f s)) = map (\<lambda>c. snd (fst c)) (children s)"
  by (simp add: update_child_map comp_def)

lemma enter_inv_app:
  assumes "app_inv s"
  shows "app_inv (render_children env
           ((update_child k handleEnter s)\<lparr> adapter := enter (snd k) (adapter s) \<rparr>))"
proof (rule render_children_inv [where ?cs0.0 = "children s" and B = "\<lambda>k g. True"])
  note p = app_inv_parts [OF assms(1)]
  let ?s1 = "(update_child k handleEnter s)\<lparr> adapter := enter (snd k) (adapter s) \<rparr>"
  show "adapter_inv (adapter ?s1)" using p(1) by (simp add: adapter_inv_enter)
  show "distinct (map (\<lambda>c. snd (fst c)) (children s))" by (rule p(2))
  show "length (filter (\<lambda>c. isOpen (snd c)) (children s)) \<le> 1" by (rule p(3))
  fix k' g' t
  assume c: "(k', g') \<in> set (children ?s1)" and t: "child_key (position ?s1) t = k'"
  from c have "(k', g') \<in> set (children (update_child k handleEnter s))" by simp
  from update_child_mem [OF this] obtain g where g: "(k', g) \<in> set (children s)"
    "g' = (if k' = k then handleEnter g else g)" by blast
  have gg: "good g" by (rule p(4) [OF g(1)])
  have "micro_inv True (g'\<lparr> props := child_props (enter (snd k) (adapter s)) t \<rparr>)"
  proof (cases "k' = k")
    case True
    have "item_id t = snd k" using t True by (metis child_key_id)
    then have "p_canExpand (child_props (enter (snd k) (adapter s)) t) = Some True"
      by (simp add: child_props_canExpand permitted_def)
    from enter_step_inv [OF gg _ this] show ?thesis by (simp add: g(2) True)
  next
    case False
    from micro_inv_weaken [OF props_step_inv [OF gg, of "child_props (enter (snd k) (adapter s)) t"]]
    show ?thesis by (simp add: g(2) False)
  qed
  then show "micro_inv True (g'\<lparr> props := child_props (adapter ?s1) t \<rparr>) \<and>
     (True \<and> activeId (adapter ?s1) = None \<longrightarrow>
        (\<exists>c0 \<in> set (children s). isOpen (snd c0) \<and> fst c0 = k'))"
    by simp
qed

lemma leave_inv_app:
  assumes "app_inv s"
  shows "app_inv (render_children env
           ((update_child k handleLeave s)\<lparr> adapter := leave dd (adapter s) \<rparr>))"
proof (rule render_children_inv
    [where ?cs0.0 = "children s" and B = "\<lambda>k' g'. k' \<noteq> k \<and> isOpen g'"])
  note p = app_inv_parts [OF assms(1)]
  let ?s1 = "(update_child k handleLeave s)\<lparr> adapter := leave dd (adapter s) \<rparr>"
  show "adapter_inv (adapter ?s1)" using p(1) by (simp add: adapter_inv_leave)
  show "distinct (map (\<lambda>c. snd (fst c)) (children s))" by (rule p(2))
  show "length (filter (\<lambda>c. isOpen (snd c)) (children s)) \<le> 1" by (rule p(3))
  fix k' g' t
  assume c: "(k', g') \<in> set (children ?s1)"
  from c have "(k', g') \<in> set (children (update_child k handleLeave s))" by simp
  from update_child_mem [OF this] obtain g where g: "(k', g) \<in> set (children s)"
    "g' = (if k' = k then handleLeave g else g)" by blast
  have gg: "good g" by (rule p(4) [OF g(1)])
  have 1: "micro_inv (k' \<noteq> k \<and> isOpen g') (g'\<lparr> props := child_props (leave dd (adapter s)) t \<rparr>)"
  proof (cases "k' = k")
    case True
    from leave_step_inv [OF gg, of "child_props (leave dd (adapter s)) t" False]
    show ?thesis by (simp add: g(2) True)
  next
    case False
    from props_step_inv [OF gg, of "child_props (leave dd (adapter s)) t"]
    show ?thesis by (simp add: g(2) False)
  qed
  have 2: "k' \<noteq> k \<and> isOpen g' \<longrightarrow> (\<exists>c0 \<in> set (children s). isOpen (snd c0) \<and> fst c0 = k')"
    using g by force
  from 1 2 show "micro_inv (k' \<noteq> k \<and> isOpen g') (g'\<lparr> props := child_props (adapter ?s1) t \<rparr>) \<and>
     ((k' \<noteq> k \<and> isOpen g') \<and> activeId (adapter ?s1) = None \<longrightarrow>
        (\<exists>c0 \<in> set (children s). isOpen (snd c0) \<and> fst c0 = k'))"
    by simp
qed

lemma event_inv_app:
  assumes "app_inv s" and "dom_event e"
  shows "app_inv (update_child k (\<lambda>g. finish ws (handle_event e g)) s)"
proof -
  note p = app_inv_parts [OF assms(1)]
  define s' where "s' = update_child k (\<lambda>g. finish ws (handle_event e g)) s"
  have f: "adapter s' = adapter s" "position s' = position s" by (simp_all add: s'_def)
  have mem: "\<exists>g. (k', g) \<in> set (children s) \<and>
      g' = (if k' = k then finish ws (handle_event e g) else g)"
    if "(k', g') \<in> set (children s')" for k' g'
    using that unfolding s'_def by (rule update_child_mem)
  have d': "distinct (map (\<lambda>c. snd (fst c)) (children s'))"
    using p(2) by (simp add: s'_def)
  have ok: "\<forall>c \<in> set (children s'). child_ok s' c"
  proof
    fix c assume c: "c \<in> set (children s')"
    obtain k' g' where kg: "c = (k', g')" by (cases c)
    from mem [of k' g'] c kg obtain g where g: "(k', g) \<in> set (children s)"
      "g' = (if k' = k then finish ws (handle_event e g) else g)" by blast
    from p(5) [OF g(1)] have o: "child_ok s (k', g)" .
    then have gg: "good g" by (simp add: child_ok_def)
    from machine_dom_step(1,3) [OF gg assms(2), of ws] o
    show "child_ok s' c" by (auto simp: child_ok_def kg g(2) f)
  qed
  have sub: "\<forall>c' \<in> set (children s'). isOpen (snd c') \<longrightarrow>
          (\<exists>c \<in> set (children s). isOpen (snd c) \<and> fst c = fst c')"
    if n: "activeId (adapter s') = None"
  proof (intro ballI impI)
    fix c' assume c': "c' \<in> set (children s')" "isOpen (snd c')"
    obtain k' g' where kg: "c' = (k', g')" by (cases c')
    from mem [of k' g'] c' kg obtain g where g: "(k', g) \<in> set (children s)"
      "g' = (if k' = k then finish ws (handle_event e g) else g)" by blast
    from p(5) [OF g(1)] have o: "child_ok s (k', g)" .
    then have gg: "good g" by (simp add: child_ok_def)
    from child_ok_exiting [OF o p(1)] n have ex: "p_exiting (props g)" by (simp add: f)
    have "isOpen g"
      using machine_dom_step(2) [OF gg assms(2), of ws] ex c'(2) by (simp add: kg g(2) split: if_splits)
    with g(1) show "\<exists>c \<in> set (children s). isOpen (snd c) \<and> fst c = fst c'"
      by (force simp: kg)
  qed
  have "length (open_toasts s') \<le> 1" by (rule one_open [OF d' ok p(2) p(3) sub])
  with p(1) d' ok show ?thesis unfolding s'_def [symmetric] by (simp add: app_inv_def f)
qed

lemma timer_inv_app:
  assumes "app_inv s"
  shows "app_inv (s\<lparr> adapter := timer_fires h (adapter s) \<rparr>)"
proof -
  have "child_props (timer_fires h (adapter s)) t = child_props (adapter s) t" for t
    by (simp add: child_props_def)
  with assms show ?thesis
    by (simp add: app_inv_def child_ok_def open_toasts_def adapter_inv_timer_fires)
qed

lemma unmount_inv_app:
  assumes "app_inv s"
  shows "app_inv (s\<lparr> adapter := onUnmounted (adapter s), children := [] \<rparr>)"
  using assms by (simp add: app_inv_def open_toasts_def adapter_inv_onUnmounted)

lemma app_init_inv: "app_inv (app_init pos)"
  by (simp add: app_inv_def app_init_def adapter_inv_init open_toasts_def)

lemma app_step_inv:
  assumes "app_inv s" and "distinct_ids e"
  shows "app_inv (app_step dd env e s)"
proof (cases e)
  case (ToasterMounted ts)
  have "adapter_inv (onMounted dd ts (adapter s))"
    using assms(2) by (simp add: ToasterMounted adapter_inv_onMounted app_inv_parts(1) [OF assms(1)])
  from rerender_inv [OF assms(1) this, of env "position s"]
  show ?thesis by (simp add: ToasterMounted)
next
  case (StoreNotify ts)
  have "adapter_inv (set_toasts dd ts (adapter s))"
    using assms(2) by (simp add: StoreNotify adapter_inv_set_toasts app_inv_parts(1) [OF assms(1)])
  from rerender_inv [OF assms(1) this, of env "position s"] assms(1)
  show ?thesis by (simp add: StoreNotify)
next
  case (PositionProp pos)
  from rerender_inv [OF assms(1) app_inv_parts(1) [OF assms(1)], of env pos] assms(1)
  show ?thesis by (simp add: PositionProp)
next
  case (ToastEnter k)
  with assms(1) enter_inv_app [OF assms(1)] show ?thesis by simp
next
  case (ToastLeave k)
  with assms(1) leave_inv_app [OF assms(1)] show ?thesis by simp
next
  case (ToastEvent k ev)
  have "deliver ws ev = (\<lambda>g. finish ws (handle_event ev g))" for ws
    by (rule ext) (simp add: deliver_def)
  with ToastEvent assms(1) event_inv_app [OF assms(1)] show ?thesis by simp
next
  case (DismissTimerFires h)
  with timer_inv_app [OF assms(1)] show ?thesis by simp
next
  case ToasterUnmounted
  with unmount_inv_app [OF assms(1)] show ?thesis by simp
qed

lemma app_run_inv:
  assumes "app_inv s" and "\<forall>ee \<in> set es. distinct_ids (snd ee)"
  shows "app_inv (app_run dd es s)"
  using assms unfolding app_run_def
  by (induction es arbitrary: s) (simp_all add: app_step_inv)

subsection \<open>At most one toast is open\<close>

lemma render_children_fields [simp]:
  "adapter (render_children env s) = adapter s" "position (render_children env s) = position s"
  by (simp_all add: render_children_map)

lemma set_toasts_activeId:
  assumes "latestId a = latest (toasts a)"
    and "latest (toasts (set_toasts dd ts a)) = latest (toasts a)"
  shows "activeId (set_toasts dd ts a) = activeId a"
proof -
  have t: "toasts (set_toasts dd ts a) = ts" by (simp add: set_toasts_def track_latest_def)
  show ?thesis using assms by (simp add: t) (simp add: set_toasts_def track_latest_def)
qed

lemma active_changes:
  assumes "adapter_inv (adapter s)" and "\<not> hover_event e"
    and "latest (toasts (adapter (app_step dd env e s))) = latest (toasts (adapter s))"
  shows "activeId (adapter (app_step dd env e s)) = activeId (adapter s)"
proof (cases e)
  case (ToasterMounted ts)
  have l: "latestId (adapter s\<lparr> listening := True \<rparr>) = latest (toasts (adapter s\<lparr> listening := True \<rparr>))"
    using assms(1) by (simp add: adapter_inv_def)
  from set_toasts_activeId [OF l, of dd ts] assms(3)
  show ?thesis by (simp add: ToasterMounted onMounted_def)
next
  case (StoreNotify ts)
  have l: "latestId (adapter s) = latest (toasts (adapter s))"
    using assms(1) by (simp add: adapter_inv_def)
  from set_toasts_activeId [OF l, of dd ts] assms(3)
  show ?thesis by (cases "listening (adapter s)") (simp_all add: StoreNotify)
next
  case (ToastEvent k ev)
  then show ?thesis by simp
qed (use assms(2) in \<open>simp_all add: onUnmounted_def\<close>)

text \<open>
  Claim C6 (amended). In every state the adapter and its toasts reach, from any sequence
  of events in which the lists sent by the store have pairwise distinct ids, with any
  order of the watchers and any measurements:
  at most one rendered toast is open; an open toast is permitted to expand, that is, it
  is the active toast or there is no active toast; while the pointer is on no toast the
  active toast is the latest toast of the list that is not exiting; there is no active
  toast only when every toast is exiting; the pointer entering a rendered toast makes
  that toast the active one; and no event other than the pointer entering or leaving a
  toast changes the active toast unless it changes which toast is the latest that is not
  exiting. So a hovered toast stays active only until the pointer leaves or the latest
  toast changes, not for the whole of the hover.
\<close>

theorem at_most_one_toast_open:
  assumes "\<forall>ee \<in> set es. distinct_ids (snd ee)"
  shows "length (open_toasts (app_run dd es (app_init pos))) \<le> 1 \<and>
     (\<forall>k \<in> set (open_toasts (app_run dd es (app_init pos))).
        permitted (adapter (app_run dd es (app_init pos))) (snd k)) \<and>
     (\<not> isHovering (adapter (app_run dd es (app_init pos))) \<longrightarrow>
        activeId (adapter (app_run dd es (app_init pos))) =
          latest (toasts (adapter (app_run dd es (app_init pos))))) \<and>
     (activeId (adapter (app_run dd es (app_init pos))) = None \<longrightarrow>
        (\<forall>t \<in> set (toasts (adapter (app_run dd es (app_init pos)))). item_exiting t)) \<and>
     (\<forall>k \<in> fst ` set (children (app_run dd es (app_init pos))).
        activeId (adapter (app_step dd env (ToastEnter k) (app_run dd es (app_init pos)))) =
          Some (snd k)) \<and>
     (\<not> hover_event e \<and>
      latest (toasts (adapter (app_step dd env e (app_run dd es (app_init pos))))) =
        latest (toasts (adapter (app_run dd es (app_init pos)))) \<longrightarrow>
      activeId (adapter (app_step dd env e (app_run dd es (app_init pos)))) =
        activeId (adapter (app_run dd es (app_init pos))))"
proof -
  define s where "s = app_run dd es (app_init pos)"
  have inv: "app_inv s" unfolding s_def by (rule app_run_inv [OF app_init_inv assms])
  note p = app_inv_parts [OF inv]
  have 1: "length (open_toasts s) \<le> 1" using inv by (simp add: app_inv_def)
  have 2: "\<forall>k \<in> set (open_toasts s). permitted (adapter s) (snd k)"
  proof
    fix k assume "k \<in> set (open_toasts s)"
    then obtain c where c: "c \<in> set (children s)" "isOpen (snd c)" "k = fst c"
      by (auto simp: open_toasts_def)
    from child_ok_open [OF p(5) [OF c(1)] c(2)] c(3)
    show "permitted (adapter s) (snd k)" by simp
  qed
  have 3: "\<not> isHovering (adapter s) \<longrightarrow> activeId (adapter s) = latest (toasts (adapter s))"
    using p(1) by (simp add: adapter_inv_def)
  have 4: "activeId (adapter s) = None \<longrightarrow> (\<forall>t \<in> set (toasts (adapter s)). item_exiting t)"
    using p(1) by (simp add: adapter_inv_def latest_None)
  have 5: "\<forall>k \<in> fst ` set (children s).
      activeId (adapter (app_step dd env (ToastEnter k) s)) = Some (snd k)"
    by simp
  have 6: "\<not> hover_event e \<and>
      latest (toasts (adapter (app_step dd env e s))) = latest (toasts (adapter s)) \<longrightarrow>
      activeId (adapter (app_step dd env e s)) = activeId (adapter s)"
    using active_changes [OF p(1)] by blast
  from 1 2 3 4 5 6 show ?thesis unfolding s_def by blast
qed

theorem at_most_one_toast_open_witness:
  "distinct (map item_id [card_toast ''a'' ''1'', card_toast ''b'' ''2'']) \<and>
   open_toasts example_hovering = [(TopRight, ''a'')] \<and>
   length (open_toasts example_hovering) \<le> 1 \<and>
   permitted (adapter example_hovering) ''a'' \<and>
   activeId (adapter (app_step (Some 6000) example_env (ToastEnter (TopRight, ''b''))
     example_hovering)) = Some ''b''"
proof -
  have d: "distinct (map item_id [card_toast ''a'' ''1'', card_toast ''b'' ''2''])"
    by (simp add: card_toast_def toast_def)
  have h: "\<forall>ee \<in> set [(example_env, ToasterMounted [card_toast ''a'' ''1'', card_toast ''b'' ''2'']),
        (example_env, ToastEnter (TopRight, ''a''))]. distinct_ids (snd ee)"
    using d by simp
  note t = at_most_one_toast_open
    [OF h, of "Some 6000" TopRight example_env "ToastEnter (TopRight, ''b'')",
      folded example_hovering_def]
  have o: "open_toasts example_hovering = [(TopRight, ''a'')]" by code_simp
  have c: "(TopRight, ''b'') \<in> fst ` set (children example_hovering)" by code_simp
  from t have 1: "length (open_toasts example_hovering) \<le> 1" by blast
  from t o have 2: "permitted (adapter example_hovering) ''a''" by simp
  from t c have 3: "activeId (adapter (app_step (Some 6000) example_env
      (ToastEnter (TopRight, ''b'')) example_hovering)) = Some ''b''"
    by (metis snd_conv)
  from d o 1 2 3 show ?thesis by blast
qed

text \<open>
  Against the claim as stated (a hovered toast is active for the hover's duration): with
  toasts \<open>a\<close> and \<open>b\<close> rendered, the pointer enters \<open>a\<close>, which becomes the active toast and
  opens. While the pointer is still on \<open>a\<close> the store sends a list with a new toast \<open>c\<close>:
  the adapter still records the hover, but the active toast is now \<open>c\<close>, \<open>a\<close> is no
  longer permitted to expand and its card has been closed.
\<close>

theorem hovered_toast_loses_active_to_new_toast:
  "open_toasts example_hovering = [(TopRight, ''a'')] \<and>
   isHovering (adapter example_hovering) \<and>
   activeId (adapter example_hovering) = Some ''a'' \<and>
   isHovering (adapter example_interrupted) \<and>
   activeId (adapter example_interrupted) = Some ''c'' \<and>
   \<not> permitted (adapter example_interrupted) ''a'' \<and>
   open_toasts example_interrupted = []"
  by code_simp

end
